theory Spec2Isabelle
  imports Main "HOL-Library.Word"
begin

section \<open>Python values used by the storage engine\<close>

text \<open>
  A Python \<^verbatim>\<open>bytes\<close> or \<^verbatim>\<open>bytearray\<close> object is a list of 8-bit words, a Python
  \<^verbatim>\<open>int\<close> is an \<open>int\<close>, a Python \<^verbatim>\<open>str\<close> is the list of its code points, and
  every exception the engine can raise is a value of \<open>py_error\<close>, named after its
  Python class and carrying its message where it has one. \<^verbatim>\<open>struct.error\<close> is not a
  subclass of \<^verbatim>\<open>ValueError\<close>, while the two Unicode errors are. \<open>Unmodelled\<close> marks an
  input on which the behaviour of a Python built-in is left out of this model.
\<close>

type_synonym byte = "8 word"
type_synonym bytes = "byte list"
type_synonym pystr = "nat list"

definition str_of :: "string \<Rightarrow> pystr" where
  "str_of s = map of_char s"

fun py_decimal :: "nat \<Rightarrow> pystr" where
  "py_decimal n = (if n < 10 then [48 + n] else py_decimal (n div 10) @ [48 + n mod 10])"

datatype py_error =
    ValueError pystr
  | IndexError pystr
  | IOError pystr
  | FileNotFoundError
  | KeyError
  | StructError
  | UnicodeEncodeError
  | UnicodeDecodeError
  | Unmodelled string

definition PAGE_SIZE :: int where
  "PAGE_SIZE = 4096"

definition FOOTER_SIZE :: int where
  "FOOTER_SIZE = 4"

definition SLOT_ENTRY_SIZE :: int where
  "SLOT_ENTRY_SIZE = 4"

subsection \<open>Slices\<close>

text \<open>
  \<^verbatim>\<open>xs[i:j]\<close>: a negative index counts from the end, and both indices are clamped to
  the length. \<^verbatim>\<open>xs[i:j] = ys\<close> on a bytearray replaces that slice (an empty one at
  \<open>i\<close> when \<open>j\<close> lies before \<open>i\<close>), so the length changes when the sizes differ.
\<close>

definition slice_index :: "int \<Rightarrow> int \<Rightarrow> nat" where
  "slice_index n i = nat (if i < 0 then max (i + n) 0 else min i n)"

definition py_slice :: "'a list \<Rightarrow> int \<Rightarrow> int \<Rightarrow> 'a list" where
  "py_slice xs i j =
     (let a = slice_index (int (length xs)) i;
          b = slice_index (int (length xs)) j
      in take (b - a) (drop a xs))"

definition py_slice_assign :: "'a list \<Rightarrow> int \<Rightarrow> int \<Rightarrow> 'a list \<Rightarrow> 'a list" where
  "py_slice_assign xs i j ys =
     (let a = slice_index (int (length xs)) i;
          b = max a (slice_index (int (length xs)) j)
      in take a xs @ ys @ drop b xs)"

subsection \<open>struct.pack and struct.unpack with format ">H"\<close>

definition pack_uint16 :: "int \<Rightarrow> py_error + bytes" where
  "pack_uint16 v =
     (if 0 \<le> v \<and> v < 65536 then Inr [word_of_int (v div 256), word_of_int (v mod 256)]
      else Inl StructError)"

fun unpack_uint16 :: "bytes \<Rightarrow> py_error + int" where
  "unpack_uint16 [hi, lo] = Inr (256 * uint hi + uint lo)"
| "unpack_uint16 b = Inl StructError"

section \<open>Heap page helpers\<close>

definition read_footer :: "bytes \<Rightarrow> py_error + (int \<times> int)" where
  "read_footer page =
     (if int (length page) \<noteq> PAGE_SIZE then Inl (ValueError (str_of ''page must be PAGE_SIZE bytes''))
      else case unpack_uint16 (py_slice page (PAGE_SIZE - FOOTER_SIZE) (PAGE_SIZE - 2)) of
             Inl e \<Rightarrow> Inl e
           | Inr slot_count \<Rightarrow>
               (case unpack_uint16 (py_slice page (PAGE_SIZE - 2) PAGE_SIZE) of
                  Inl e \<Rightarrow> Inl e
                | Inr free_offset \<Rightarrow> Inr (slot_count, free_offset)))"

definition write_footer :: "bytes \<Rightarrow> int \<Rightarrow> int \<Rightarrow> py_error + bytes" where
  "write_footer page slot_count free_offset =
     (case pack_uint16 slot_count of
        Inl e \<Rightarrow> Inl e
      | Inr b1 \<Rightarrow>
          (let page1 = py_slice_assign page (PAGE_SIZE - FOOTER_SIZE) (PAGE_SIZE - 2) b1
           in case pack_uint16 free_offset of
                Inl e \<Rightarrow> Inl e
              | Inr b2 \<Rightarrow> Inr (py_slice_assign page1 (PAGE_SIZE - 2) PAGE_SIZE b2)))"

definition slot_pos :: "int \<Rightarrow> int" where
  "slot_pos slot_index = PAGE_SIZE - FOOTER_SIZE - (slot_index + 1) * SLOT_ENTRY_SIZE"

definition read_slot :: "bytes \<Rightarrow> int \<Rightarrow> int \<Rightarrow> py_error + (int \<times> int)" where
  "read_slot page slot_index slot_count =
     (if slot_index < 0 \<or> slot_index \<ge> slot_count then Inl (IndexError (str_of ''slot_index out of range''))
      else let pos = slot_pos slot_index
           in case unpack_uint16 (py_slice page pos (pos + 2)) of
                Inl e \<Rightarrow> Inl e
              | Inr offset \<Rightarrow>
                  (case unpack_uint16 (py_slice page (pos + 2) (pos + 4)) of
                     Inl e \<Rightarrow> Inl e
                   | Inr len \<Rightarrow> Inr (offset, len)))"

definition write_slot :: "bytes \<Rightarrow> int \<Rightarrow> int \<Rightarrow> int \<Rightarrow> py_error + bytes" where
  "write_slot page slot_index offset len =
     (let pos = slot_pos slot_index
      in case pack_uint16 offset of
           Inl e \<Rightarrow> Inl e
         | Inr b1 \<Rightarrow>
             (let page1 = py_slice_assign page pos (pos + 2) b1
              in case pack_uint16 len of
                   Inl e \<Rightarrow> Inl e
                 | Inr b2 \<Rightarrow> Inr (py_slice_assign page1 (pos + 2) (pos + 4) b2)))"

definition initialize_empty_page :: "py_error + bytes" where
  "initialize_empty_page = write_footer (replicate (nat PAGE_SIZE) 0) 0 0"

definition free_space_in_page :: "bytes \<Rightarrow> py_error + int" where
  "free_space_in_page page =
     (case read_footer page of
        Inl e \<Rightarrow> Inl e
      | Inr (slot_count, free_offset) \<Rightarrow>
          (let slot_table_start = PAGE_SIZE - FOOTER_SIZE - slot_count * SLOT_ENTRY_SIZE
           in Inr (slot_table_start - free_offset)))"

definition insert_record_into_page :: "bytes \<Rightarrow> bytes \<Rightarrow> py_error + (bytes \<times> int)" where
  "insert_record_into_page page record =
     (case read_footer page of
        Inl e \<Rightarrow> Inl e
      | Inr (slot_count, free_offset) \<Rightarrow>
          (let needed = int (length record) + SLOT_ENTRY_SIZE
           in case free_space_in_page page of
                Inl e \<Rightarrow> Inl e
              | Inr free \<Rightarrow>
                  if free < needed then Inl (ValueError (str_of ''Not enough space in page''))
                  else
                    (let rec_off = free_offset;
                         pg1 = py_slice_assign page rec_off (rec_off + int (length record)) record;
                         new_slot = slot_count
                     in case write_slot pg1 new_slot rec_off (int (length record)) of
                          Inl e \<Rightarrow> Inl e
                        | Inr pg2 \<Rightarrow>
                            (case write_footer pg2 (slot_count + 1)
                                    (free_offset + int (length record)) of
                               Inl e \<Rightarrow> Inl e
                             | Inr pg3 \<Rightarrow> Inr (pg3, new_slot)))))"

definition get_record_from_page :: "bytes \<Rightarrow> int \<Rightarrow> py_error + bytes" where
  "get_record_from_page page slot_index =
     (case read_footer page of
        Inl e \<Rightarrow> Inl e
      | Inr (slot_count, _) \<Rightarrow>
          (case read_slot page slot_index slot_count of
             Inl e \<Rightarrow> Inl e
           | Inr (offset, len) \<Rightarrow> Inr (py_slice page offset (offset + len))))"

subsection \<open>The page insert on objects\<close>

text \<open>
  \<^verbatim>\<open>insert_record_into_page\<close> receives a reference to a \<^verbatim>\<open>bytes\<close> object, copies it into
  a new \<^verbatim>\<open>bytearray\<close> (\<^verbatim>\<open>pg = bytearray(page)\<close>), writes into that copy in place and
  returns a new \<^verbatim>\<open>bytes\<close> object made from it. To speak about which object is written, the
  objects are kept in a list and a reference is an index into it: allocation appends
  an object, a write in place updates the list at the reference. The function returns
  the reference of its result and the list of objects it leaves behind, also when it
  raises.
\<close>

definition insert_record_into_page_heap ::
  "bytes list \<Rightarrow> nat \<Rightarrow> bytes \<Rightarrow> (py_error + (nat \<times> int)) \<times> bytes list" where
  "insert_record_into_page_heap h page record =
     (case read_footer (h ! page) of
        Inl e \<Rightarrow> (Inl e, h)
      | Inr (slot_count, free_offset) \<Rightarrow>
          (let needed = int (length record) + SLOT_ENTRY_SIZE
           in case free_space_in_page (h ! page) of
                Inl e \<Rightarrow> (Inl e, h)
              | Inr free \<Rightarrow>
                  if free < needed then (Inl (ValueError (str_of ''Not enough space in page'')), h)
                  else
                    (let pg = length h;
                         h1 = h @ [h ! page];
                         rec_off = free_offset;
                         h2 = h1[pg := py_slice_assign (h1 ! pg) rec_off
                                         (rec_off + int (length record)) record];
                         new_slot = slot_count
                     in case write_slot (h2 ! pg) new_slot rec_off (int (length record)) of
                          Inl e \<Rightarrow> (Inl e, h2)
                        | Inr b2 \<Rightarrow>
                            (let h3 = h2[pg := b2]
                             in case write_footer (h3 ! pg) (slot_count + 1)
                                       (free_offset + int (length record)) of
                                  Inl e \<Rightarrow> (Inl e, h3)
                                | Inr b3 \<Rightarrow>
                                    (let h4 = h3[pg := b3]
                                     in (Inr (length h4, new_slot), h4 @ [h4 ! pg]))))))"

section \<open>File-level heap functions\<close>

text \<open>
  Storage is a map from file names to
  file contents; \<^verbatim>\<open>os.path.exists\<close> is membership in its domain and
  \<^verbatim>\<open>os.path.getsize\<close> the length of the content. A function that writes returns
  its result together with the storage it leaves behind, also when it raises: what was
  written before the exception stays written.
\<close>

type_synonym filesystem = "pystr \<Rightarrow> bytes option"

definition py_range :: "int \<Rightarrow> int list" where
  "py_range n = map int [0..<nat n]"

definition is_ValueError :: "py_error \<Rightarrow> bool" where
  "is_ValueError e =
     (case e of ValueError m \<Rightarrow> True | UnicodeEncodeError \<Rightarrow> True | UnicodeDecodeError \<Rightarrow> True
      | _ \<Rightarrow> False)"

definition path_exists :: "filesystem \<Rightarrow> pystr \<Rightarrow> bool" where
  "path_exists fs fname = (fs fname \<noteq> None)"

definition getsize :: "filesystem \<Rightarrow> pystr \<Rightarrow> py_error + int" where
  "getsize fs fname =
     (case fs fname of None \<Rightarrow> Inl FileNotFoundError | Some content \<Rightarrow> Inr (int (length content)))"

text \<open>
  \<^verbatim>\<open>f.seek(pos); f.write(data)\<close> on a file opened for update: the data replaces the bytes
  from \<open>pos\<close> on, and a position past the end is first filled with zero bytes.
\<close>

definition file_write_at :: "bytes \<Rightarrow> nat \<Rightarrow> bytes \<Rightarrow> bytes" where
  "file_write_at content pos data =
     (take pos content @ replicate (pos - length content) 0) @ data
       @ drop (pos + length data) content"

definition create_heap_file :: "filesystem \<Rightarrow> pystr \<Rightarrow> (py_error + unit) \<times> filesystem" where
  "create_heap_file fs fname =
     (case initialize_empty_page of
        Inl e \<Rightarrow> (Inl e, fs(fname \<mapsto> []))
      | Inr page \<Rightarrow> (Inr (), fs(fname \<mapsto> page)))"

definition read_page :: "filesystem \<Rightarrow> pystr \<Rightarrow> int \<Rightarrow> py_error + bytes" where
  "read_page fs fname page_num =
     (case fs fname of
        None \<Rightarrow> Inl FileNotFoundError
      | Some content \<Rightarrow>
          if page_num * PAGE_SIZE < 0 then Inl (IOError (str_of ''Invalid argument''))
          else
            (let data = take (nat PAGE_SIZE) (drop (nat (page_num * PAGE_SIZE)) content)
             in if int (length data) \<noteq> PAGE_SIZE then Inl (IOError (str_of ''Failed to read full page''))
                else Inr data))"

definition write_page ::
  "filesystem \<Rightarrow> pystr \<Rightarrow> int \<Rightarrow> bytes \<Rightarrow> (py_error + unit) \<times> filesystem" where
  "write_page fs fname page_num page_data =
     (if int (length page_data) \<noteq> PAGE_SIZE
      then (Inl (ValueError (str_of ''page_data must be PAGE_SIZE bytes'')), fs)
      else case fs fname of
             None \<Rightarrow> (Inl FileNotFoundError, fs)
           | Some content \<Rightarrow>
               if page_num * PAGE_SIZE < 0 then (Inl (IOError (str_of ''Invalid argument'')), fs)
               else (Inr (),
                     fs(fname \<mapsto> file_write_at content (nat (page_num * PAGE_SIZE)) page_data)))"

definition append_page :: "filesystem \<Rightarrow> pystr \<Rightarrow> bytes \<Rightarrow> (py_error + unit) \<times> filesystem" where
  "append_page fs fname page_data =
     (if int (length page_data) \<noteq> PAGE_SIZE
      then (Inl (ValueError (str_of ''page_data must be PAGE_SIZE bytes'')), fs)
      else case fs fname of
             None \<Rightarrow> (Inr (), fs(fname \<mapsto> page_data))
           | Some content \<Rightarrow> (Inr (), fs(fname \<mapsto> content @ page_data)))"

text \<open>
  The loop \<^verbatim>\<open>for p in range(num_pages)\<close> of \<^verbatim>\<open>insert_record\<close>: \<open>Some (p, slot)\<close> is the
  \<^verbatim>\<open>return p, slot\<close> inside the loop, \<open>None\<close> is falling out of the loop. The
  \<^verbatim>\<open>except ValueError: continue\<close> covers both the page insert and \<^verbatim>\<open>write_page\<close>.
\<close>

fun insert_record_loop ::
  "filesystem \<Rightarrow> pystr \<Rightarrow> bytes \<Rightarrow> int list \<Rightarrow> (py_error + (int \<times> int) option) \<times> filesystem" where
  "insert_record_loop fs fname record [] = (Inr None, fs)"
| "insert_record_loop fs fname record (p # ps) =
     (case read_page fs fname p of
        Inl e \<Rightarrow> (Inl e, fs)
      | Inr page \<Rightarrow>
          (case insert_record_into_page page record of
             Inl e \<Rightarrow>
               if is_ValueError e then insert_record_loop fs fname record ps else (Inl e, fs)
           | Inr (new_page, slot) \<Rightarrow>
               (case write_page fs fname p new_page of
                  (Inl e, fs') \<Rightarrow>
                    if is_ValueError e then insert_record_loop fs' fname record ps
                    else (Inl e, fs')
                | (Inr u, fs') \<Rightarrow> (Inr (Some (p, slot)), fs'))))"

definition insert_record ::
  "filesystem \<Rightarrow> pystr \<Rightarrow> bytes \<Rightarrow> (py_error + (int \<times> int)) \<times> filesystem" where
  "insert_record fs fname record =
     (case (if \<not> path_exists fs fname \<or> getsize fs fname = Inr 0
            then create_heap_file fs fname else (Inr (), fs)) of
        (Inl e, fs1) \<Rightarrow> (Inl e, fs1)
      | (Inr u, fs1) \<Rightarrow>
          (case getsize fs1 fname of
             Inl e \<Rightarrow> (Inl e, fs1)
           | Inr file_size \<Rightarrow>
               (let num_pages = file_size div PAGE_SIZE
                in case insert_record_loop fs1 fname record (py_range num_pages) of
                     (Inl e, fs2) \<Rightarrow> (Inl e, fs2)
                   | (Inr (Some (p, slot)), fs2) \<Rightarrow> (Inr (p, slot), fs2)
                   | (Inr None, fs2) \<Rightarrow>
                       (case initialize_empty_page of
                          Inl e \<Rightarrow> (Inl e, fs2)
                        | Inr new_pg \<Rightarrow>
                            (case insert_record_into_page new_pg record of
                               Inl e \<Rightarrow> (Inl e, fs2)
                             | Inr (pg_bytes, slot) \<Rightarrow>
                                 (case append_page fs2 fname pg_bytes of
                                    (Inl e, fs3) \<Rightarrow> (Inl e, fs3)
                                  | (Inr u, fs3) \<Rightarrow> (Inr (num_pages, slot), fs3)))))))"

fun scan_slots ::
  "bytes \<Rightarrow> int \<Rightarrow> int list \<Rightarrow> (int \<times> int \<times> bytes) list \<Rightarrow> py_error + (int \<times> int \<times> bytes) list" where
  "scan_slots page p [] results = Inr results"
| "scan_slots page p (si # sis) results =
     (case get_record_from_page page si of
        Inl e \<Rightarrow> Inl e
      | Inr rcd \<Rightarrow> scan_slots page p sis (results @ [(p, si, rcd)]))"

fun scan_pages ::
  "filesystem \<Rightarrow> pystr \<Rightarrow> int list \<Rightarrow> (int \<times> int \<times> bytes) list \<Rightarrow> py_error + (int \<times> int \<times> bytes) list" where
  "scan_pages fs fname [] results = Inr results"
| "scan_pages fs fname (p # ps) results =
     (case read_page fs fname p of
        Inl e \<Rightarrow> Inl e
      | Inr page \<Rightarrow>
          (case read_footer page of
             Inl e \<Rightarrow> Inl e
           | Inr (slot_count, free_offset) \<Rightarrow>
               (case scan_slots page p (py_range slot_count) results of
                  Inl e \<Rightarrow> Inl e
                | Inr results' \<Rightarrow> scan_pages fs fname ps results')))"

definition get_all_raw_records :: "filesystem \<Rightarrow> pystr \<Rightarrow> py_error + (int \<times> int \<times> bytes) list" where
  "get_all_raw_records fs fname =
     (if \<not> path_exists fs fname then Inr []
      else case getsize fs fname of
             Inl e \<Rightarrow> Inl e
           | Inr fsize \<Rightarrow>
               if fsize = 0 then Inr []
               else scan_pages fs fname (py_range (fsize div PAGE_SIZE)) [])"

section \<open>Primitive pack/unpack helpers\<close>

subsection \<open>Strings and UTF-8\<close>

text \<open>
  \<^verbatim>\<open>s.encode("utf-8")\<close> and \<^verbatim>\<open>b.decode("utf-8")\<close> are the strict UTF-8 codec: encoding
  rejects the surrogates \<open>D800..DFFF\<close>; decoding rejects stray and missing continuation
  bytes, overlong forms, surrogates and code points above \<open>10FFFF\<close>.
\<close>

definition utf8_encode_cp :: "nat \<Rightarrow> py_error + bytes" where
  "utf8_encode_cp c =
     (if c < 128 then Inr [of_nat c]
      else if c < 2048 then Inr [of_nat (192 + c div 64), of_nat (128 + c mod 64)]
      else if c < 65536 then
        (if 55296 \<le> c \<and> c < 57344 then Inl UnicodeEncodeError
         else Inr [of_nat (224 + c div 4096), of_nat (128 + c div 64 mod 64),
                   of_nat (128 + c mod 64)])
      else if c < 1114112 then
        Inr [of_nat (240 + c div 262144), of_nat (128 + c div 4096 mod 64),
             of_nat (128 + c div 64 mod 64), of_nat (128 + c mod 64)]
      else Inl UnicodeEncodeError)"

fun utf8_encode :: "pystr \<Rightarrow> py_error + bytes" where
  "utf8_encode [] = Inr []"
| "utf8_encode (c # cs) =
     (case utf8_encode_cp c of
        Inl e \<Rightarrow> Inl e
      | Inr b \<Rightarrow> (case utf8_encode cs of Inl e \<Rightarrow> Inl e | Inr bs \<Rightarrow> Inr (b @ bs)))"

definition is_cont :: "byte \<Rightarrow> bool" where
  "is_cont b = (128 \<le> unat b \<and> unat b < 192)"

fun utf8_decode :: "bytes \<Rightarrow> py_error + pystr" where
  "utf8_decode [] = Inr []"
| "utf8_decode (b0 # bs) =
     (if unat b0 < 128 then
        (case utf8_decode bs of Inl e \<Rightarrow> Inl e | Inr cs \<Rightarrow> Inr (unat b0 # cs))
      else if 194 \<le> unat b0 \<and> unat b0 < 224 then
        (case bs of
           b1 # r \<Rightarrow>
             if is_cont b1 then
               (case utf8_decode r of
                  Inl e \<Rightarrow> Inl e
                | Inr cs \<Rightarrow> Inr (((unat b0 - 192) * 64 + (unat b1 - 128)) # cs))
             else Inl UnicodeDecodeError
         | _ \<Rightarrow> Inl UnicodeDecodeError)
      else if 224 \<le> unat b0 \<and> unat b0 < 240 then
        (case bs of
           b1 # b2 # r \<Rightarrow>
             if is_cont b1 \<and> is_cont b2 \<and>
                2048 \<le> (unat b0 - 224) * 4096 + (unat b1 - 128) * 64 + (unat b2 - 128) \<and>
                \<not> (55296 \<le> (unat b0 - 224) * 4096 + (unat b1 - 128) * 64 + (unat b2 - 128) \<and>
                   (unat b0 - 224) * 4096 + (unat b1 - 128) * 64 + (unat b2 - 128) < 57344)
             then
               (case utf8_decode r of
                  Inl e \<Rightarrow> Inl e
                | Inr cs \<Rightarrow>
                    Inr (((unat b0 - 224) * 4096 + (unat b1 - 128) * 64 + (unat b2 - 128)) # cs))
             else Inl UnicodeDecodeError
         | _ \<Rightarrow> Inl UnicodeDecodeError)
      else if 240 \<le> unat b0 \<and> unat b0 < 245 then
        (case bs of
           b1 # b2 # b3 # r \<Rightarrow>
             if is_cont b1 \<and> is_cont b2 \<and> is_cont b3 \<and>
                65536 \<le> (unat b0 - 240) * 262144 + (unat b1 - 128) * 4096
                          + (unat b2 - 128) * 64 + (unat b3 - 128) \<and>
                (unat b0 - 240) * 262144 + (unat b1 - 128) * 4096
                  + (unat b2 - 128) * 64 + (unat b3 - 128) < 1114112
             then
               (case utf8_decode r of
                  Inl e \<Rightarrow> Inl e
                | Inr cs \<Rightarrow>
                    Inr (((unat b0 - 240) * 262144 + (unat b1 - 128) * 4096
                          + (unat b2 - 128) * 64 + (unat b3 - 128)) # cs))
             else Inl UnicodeDecodeError
         | _ \<Rightarrow> Inl UnicodeDecodeError)
      else Inl UnicodeDecodeError)"

text \<open>\<^verbatim>\<open>x * k\<close> on a bytes object: empty when \<open>k\<close> is not positive.\<close>

definition py_repeat :: "'a list \<Rightarrow> int \<Rightarrow> 'a list" where
  "py_repeat xs k = concat (replicate (nat k) xs)"

definition rstrip_zero :: "bytes \<Rightarrow> bytes" where
  "rstrip_zero b = rev (dropWhile (\<lambda>x. x = 0) (rev b))"

subsection \<open>Integers and floats\<close>

text \<open>
  \<^verbatim>\<open>struct.pack(">i", v)\<close> raises \<^verbatim>\<open>struct.error\<close> outside the signed 32-bit range. A
  Python float that is exactly representable in single precision is modelled by its
  IEEE-754 binary32 bit pattern, a 32-bit word; \<^verbatim>\<open>struct.pack(">f", v)\<close> then writes the
  four bytes of the pattern, most significant first. Floats that single precision would
  round are outside this model, and so are the NaN patterns (exponent bits all set,
  fraction not zero): the conversion between double and single precision can change a
  NaN, and a NaN is not equal to itself; packing or unpacking one is marked
  \<open>Unmodelled\<close>.
\<close>

definition pack_int :: "int \<Rightarrow> py_error + bytes" where
  "pack_int v =
     (if - 2147483648 \<le> v \<and> v < 2147483648
      then Inr [word_of_int (v div 16777216), word_of_int (v div 65536),
                word_of_int (v div 256), word_of_int v]
      else Inl StructError)"

fun unpack_int :: "bytes \<Rightarrow> py_error + int" where
  "unpack_int [b0, b1, b2, b3] =
     (let u = ((uint b0 * 256 + uint b1) * 256 + uint b2) * 256 + uint b3
      in Inr (if u < 2147483648 then u else u - 4294967296))"
| "unpack_int b =
     Inl (ValueError (str_of ''Expected 4 bytes for int, got '' @ py_decimal (length b)))"

definition float_is_nan :: "32 word \<Rightarrow> bool" where
  "float_is_nan w = (unat w mod 2147483648 > 2139095040)"

definition pack_float :: "32 word \<Rightarrow> py_error + bytes" where
  "pack_float v =
     (if float_is_nan v then Inl (Unmodelled ''pack of a NaN'')
      else Inr [of_nat (unat v div 16777216), of_nat (unat v div 65536),
                of_nat (unat v div 256), of_nat (unat v)])"

fun unpack_float :: "bytes \<Rightarrow> py_error + 32 word" where
  "unpack_float [b0, b1, b2, b3] =
     (let w = of_nat (((unat b0 * 256 + unat b1) * 256 + unat b2) * 256 + unat b3)
      in if float_is_nan w then Inl (Unmodelled ''unpack of a NaN'') else Inr w)"
| "unpack_float b =
     Inl (ValueError (str_of ''Expected 4 bytes for float, got '' @ py_decimal (length b)))"

subsection \<open>Fixed and variable-length strings\<close>

definition pack_char :: "pystr \<Rightarrow> int \<Rightarrow> py_error + bytes" where
  "pack_char s n =
     (case utf8_encode s of
        Inl e \<Rightarrow> Inl e
      | Inr b0 \<Rightarrow>
          (let b = (if int (length b0) > n then py_slice b0 0 n else b0)
           in Inr (b @ py_repeat [0] (n - int (length b)))))"

definition unpack_char :: "bytes \<Rightarrow> py_error + pystr" where
  "unpack_char b = utf8_decode (rstrip_zero b)"

definition pack_uint8 :: "int \<Rightarrow> py_error + bytes" where
  "pack_uint8 v = (if 0 \<le> v \<and> v < 256 then Inr [word_of_int v] else Inl StructError)"

definition pack_varchar :: "pystr \<Rightarrow> int \<Rightarrow> py_error + bytes" where
  "pack_varchar s n =
     (case utf8_encode s of
        Inl e \<Rightarrow> Inl e
      | Inr b0 \<Rightarrow>
          (let b1 = (if int (length b0) > n then py_slice b0 0 n else b0);
               b = (if length b1 \<ge> 256 then py_slice b1 0 255 else b1);
               len = int (length b)
           in case pack_uint8 len of
                Inl e \<Rightarrow> Inl e
              | Inr l \<Rightarrow> Inr (l @ b @ py_repeat [0] (n - len))))"

definition unpack_varchar :: "bytes \<Rightarrow> int \<Rightarrow> py_error + pystr" where
  "unpack_varchar b n =
     (if length b = 0 then Inr []
      else let len = uint (b ! 0);
               data = py_slice b 1 (1 + len)
           in utf8_decode data)"

section \<open>Schema and structured records\<close>

text \<open>
  A field value is an int, a float or a string. The coercions \<^verbatim>\<open>int(val)\<close>,
  \<^verbatim>\<open>float(val)\<close> and \<^verbatim>\<open>str(val)\<close> of the encoder are modelled on values of the
  matching type, and \<^verbatim>\<open>float(0)\<close> for the default of a missing float field; a coercion
  across types is marked \<open>Unmodelled\<close>.
\<close>

datatype pyval = VInt int | VFloat "32 word" | VStr pystr

definition py_int_of :: "pyval \<Rightarrow> py_error + int" where
  "py_int_of v = (case v of VInt i \<Rightarrow> Inr i | _ \<Rightarrow> Inl (Unmodelled ''int() across types''))"

definition py_float_of :: "pyval \<Rightarrow> py_error + 32 word" where
  "py_float_of v =
     (case v of
        VFloat w \<Rightarrow> Inr w
      | VInt i \<Rightarrow> if i = 0 then Inr 0 else Inl (Unmodelled ''float() of a nonzero int'')
      | VStr s \<Rightarrow> Inl (Unmodelled ''float() of a str''))"

definition py_str_of :: "pyval \<Rightarrow> py_error + pystr" where
  "py_str_of v = (case v of VStr s \<Rightarrow> Inr s | _ \<Rightarrow> Inl (Unmodelled ''str() across types''))"

record field_desc =
  field_name :: pystr
  field_type :: pystr

record table_desc =
  table_name :: pystr
  file_name :: "pystr option"
  table_fields :: "field_desc list"

type_synonym schema = "pystr \<Rightarrow> table_desc option"

text \<open>
  \<^verbatim>\<open>str.strip()\<close> removes the characters for which \<^verbatim>\<open>str.isspace()\<close> holds. \<^verbatim>\<open>int(s)\<close>
  on a string is modelled for ASCII strings: it skips surrounding tab, line feed,
  vertical tab, form feed, carriage return and space (and no other character), then
  reads an optional sign and decimal digits that single underscores may separate. A
  string with a non-ASCII character, and a literal of more than 4300 digits (the limit
  of recent interpreters), are marked \<open>Unmodelled\<close>. The message of the \<^verbatim>\<open>ValueError\<close> of
  \<^verbatim>\<open>int\<close> ends with the \<^verbatim>\<open>repr\<close> of its argument, which is left out.
\<close>

definition py_isspace :: "nat \<Rightarrow> bool" where
  "py_isspace c =
     ((9 \<le> c \<and> c \<le> 13) \<or> (28 \<le> c \<and> c \<le> 32) \<or> c = 133 \<or> c = 160 \<or> c = 5760 \<or>
      (8192 \<le> c \<and> c \<le> 8202) \<or> c = 8232 \<or> c = 8233 \<or> c = 8239 \<or> c = 8287 \<or> c = 12288)"

definition py_strip :: "pystr \<Rightarrow> pystr" where
  "py_strip s = dropWhile py_isspace (rev (dropWhile py_isspace (rev s)))"

definition startswith :: "pystr \<Rightarrow> pystr \<Rightarrow> bool" where
  "startswith s p = (take (length p) s = p)"

definition endswith :: "pystr \<Rightarrow> pystr \<Rightarrow> bool" where
  "endswith s p = (length p \<le> length s \<and> drop (length s - length p) s = p)"

definition is_c_space :: "nat \<Rightarrow> bool" where
  "is_c_space c = ((9 \<le> c \<and> c \<le> 13) \<or> c = 32)"

definition c_strip :: "pystr \<Rightarrow> pystr" where
  "c_strip s = dropWhile is_c_space (rev (dropWhile is_c_space (rev s)))"

definition is_digit :: "nat \<Rightarrow> bool" where
  "is_digit c = (48 \<le> c \<and> c \<le> 57)"

fun digits_ok :: "pystr \<Rightarrow> bool" where
  "digits_ok [] = False"
| "digits_ok [c] = is_digit c"
| "digits_ok (c # d # r) =
     (is_digit c \<and> (if d = 95 then digits_ok r else digits_ok (d # r)))"

definition digits_value :: "pystr \<Rightarrow> int" where
  "digits_value s = foldl (\<lambda>a c. 10 * a + (int c - 48)) 0 (filter (\<lambda>c. c \<noteq> 95) s)"

definition py_int_of_str :: "pystr \<Rightarrow> py_error + int" where
  "py_int_of_str s =
     (if \<exists>c \<in> set s. c \<ge> 128 then Inl (Unmodelled ''int() of a non-ASCII string'')
      else let t = c_strip s;
               neg = (t \<noteq> [] \<and> hd t = 45);
               d = (if t \<noteq> [] \<and> (hd t = 45 \<or> hd t = 43) then tl t else t)
           in if digits_ok d then
                (if length (filter (\<lambda>c. c \<noteq> 95) d) > 4300
                 then Inl (Unmodelled ''int() of more than 4300 digits'')
                 else Inr (if neg then - digits_value d else digits_value d))
              else Inl (ValueError (str_of ''invalid literal for int() with base 10'')))"

datatype field_type_desc = TInt | TFloat | TChar int | TVarchar int

definition parse_type :: "pystr \<Rightarrow> py_error + field_type_desc" where
  "parse_type ft0 =
     (let ft = py_strip ft0
      in if startswith ft (str_of ''char('') \<and> endswith ft (str_of '')'')
         then (case py_int_of_str (py_slice ft (int (length (str_of ''char(''))) (- 1)) of
                 Inl e \<Rightarrow> Inl e | Inr n \<Rightarrow> Inr (TChar n))
         else if startswith ft (str_of ''varchar('') \<and> endswith ft (str_of '')'')
         then (case py_int_of_str (py_slice ft (int (length (str_of ''varchar(''))) (- 1)) of
                 Inl e \<Rightarrow> Inl e | Inr n \<Rightarrow> Inr (TVarchar n))
         else if ft = str_of ''int'' then Inr TInt
         else if ft = str_of ''float'' then Inr TFloat
         else Inl (ValueError (str_of ''Unknown field type: '' @ ft)))"

definition default_value :: "field_type_desc \<Rightarrow> pyval" where
  "default_value t = (case t of TChar n \<Rightarrow> VStr [] | TVarchar n \<Rightarrow> VStr [] | _ \<Rightarrow> VInt 0)"

definition encode_field :: "field_type_desc \<Rightarrow> pyval \<Rightarrow> py_error + bytes" where
  "encode_field t val =
     (case t of
        TInt \<Rightarrow> (case py_int_of val of Inl e \<Rightarrow> Inl e | Inr i \<Rightarrow> pack_int i)
      | TFloat \<Rightarrow> (case py_float_of val of Inl e \<Rightarrow> Inl e | Inr w \<Rightarrow> pack_float w)
      | TChar param \<Rightarrow> (case py_str_of val of Inl e \<Rightarrow> Inl e | Inr s \<Rightarrow> pack_char s param)
      | TVarchar param \<Rightarrow>
          (case py_str_of val of Inl e \<Rightarrow> Inl e | Inr s \<Rightarrow> pack_varchar s param))"

fun encode_fields :: "(pystr \<Rightarrow> pyval option) \<Rightarrow> field_desc list \<Rightarrow> py_error + bytes" where
  "encode_fields record_dict [] = Inr []"
| "encode_fields record_dict (f # fs) =
     (case parse_type (field_type f) of
        Inl e \<Rightarrow> Inl e
      | Inr t \<Rightarrow>
          (let val = (case record_dict (field_name f) of
                        Some v \<Rightarrow> v
                      | None \<Rightarrow> default_value t)
           in case encode_field t val of
                Inl e \<Rightarrow> Inl e
              | Inr part \<Rightarrow>
                  (case encode_fields record_dict fs of
                     Inl e \<Rightarrow> Inl e
                   | Inr parts \<Rightarrow> Inr (part @ parts))))"

definition encode_record :: "(pystr \<Rightarrow> pyval option) \<Rightarrow> pystr \<Rightarrow> schema \<Rightarrow> py_error + bytes" where
  "encode_record record_dict tname sch =
     (case sch tname of
        None \<Rightarrow> Inl (ValueError (str_of ''table not in schema''))
      | Some table \<Rightarrow> encode_fields record_dict (table_fields table))"

fun decode_fields ::
  "bytes \<Rightarrow> field_desc list \<Rightarrow> int \<Rightarrow> (pystr \<Rightarrow> pyval option)
   \<Rightarrow> py_error + (pystr \<Rightarrow> pyval option)" where
  "decode_fields record_bytes [] idx res = Inr res"
| "decode_fields record_bytes (f # fs) idx res =
     (case parse_type (field_type f) of
        Inl e \<Rightarrow> Inl e
      | Inr TInt \<Rightarrow>
          (case unpack_int (py_slice record_bytes idx (idx + 4)) of
             Inl e \<Rightarrow> Inl e
           | Inr v \<Rightarrow> decode_fields record_bytes fs (idx + 4) (res(field_name f \<mapsto> VInt v)))
      | Inr TFloat \<Rightarrow>
          (case unpack_float (py_slice record_bytes idx (idx + 4)) of
             Inl e \<Rightarrow> Inl e
           | Inr v \<Rightarrow> decode_fields record_bytes fs (idx + 4) (res(field_name f \<mapsto> VFloat v)))
      | Inr (TChar param) \<Rightarrow>
          (case unpack_char (py_slice record_bytes idx (idx + param)) of
             Inl e \<Rightarrow> Inl e
           | Inr v \<Rightarrow> decode_fields record_bytes fs (idx + param) (res(field_name f \<mapsto> VStr v)))
      | Inr (TVarchar param) \<Rightarrow>
          (case unpack_varchar (py_slice record_bytes idx (idx + 1 + param)) param of
             Inl e \<Rightarrow> Inl e
           | Inr v \<Rightarrow>
               decode_fields record_bytes fs (idx + 1 + param) (res(field_name f \<mapsto> VStr v))))"

definition decode_record :: "bytes \<Rightarrow> pystr \<Rightarrow> schema \<Rightarrow> py_error + (pystr \<Rightarrow> pyval option)" where
  "decode_record record_bytes tname sch =
     (case sch tname of
        None \<Rightarrow> Inl (ValueError (str_of ''table not in schema''))
      | Some table \<Rightarrow> decode_fields record_bytes (table_fields table) 0 (\<lambda>k. None))"

definition table_file_name :: "table_desc \<Rightarrow> pystr" where
  "table_file_name table_d =
     (case file_name table_d of
        Some f \<Rightarrow> if f \<noteq> [] then f else table_name table_d @ str_of ''.heap''
      | None \<Rightarrow> table_name table_d @ str_of ''.heap'')"

definition insert_structured_record ::
  "filesystem \<Rightarrow> pystr \<Rightarrow> schema \<Rightarrow> (pystr \<Rightarrow> pyval option)
   \<Rightarrow> (py_error + (int \<times> int)) \<times> filesystem" where
  "insert_structured_record fs tname sch record_dict =
     (case sch tname of
        None \<Rightarrow> (Inl KeyError, fs)
      | Some table \<Rightarrow>
          (case encode_record record_dict tname sch of
             Inl e \<Rightarrow> (Inl e, fs)
           | Inr rcd \<Rightarrow> insert_record fs (table_file_name table) rcd))"

fun decode_all ::
  "(int \<times> int \<times> bytes) list \<Rightarrow> pystr \<Rightarrow> schema
   \<Rightarrow> py_error + (pystr \<Rightarrow> pyval option) list" where
  "decode_all [] tname sch = Inr []"
| "decode_all ((p, si, rec_bytes) # raws) tname sch =
     (case decode_record rec_bytes tname sch of
        Inl e \<Rightarrow> Inl e
      | Inr d \<Rightarrow> (case decode_all raws tname sch of Inl e \<Rightarrow> Inl e | Inr ds \<Rightarrow> Inr (d # ds)))"

definition read_all_structured_records ::
  "filesystem \<Rightarrow> pystr \<Rightarrow> schema \<Rightarrow> py_error + (pystr \<Rightarrow> pyval option) list" where
  "read_all_structured_records fs tname sch =
     (case sch tname of
        None \<Rightarrow> Inl KeyError
      | Some table \<Rightarrow>
          (case get_all_raw_records fs (table_file_name table) of
             Inl e \<Rightarrow> Inl e
           | Inr raws \<Rightarrow> decode_all raws tname sch))"

section \<open>Auxiliary notions for the proofs\<close>

definition put :: "'a list \<Rightarrow> nat \<Rightarrow> 'a list \<Rightarrow> 'a list" where
  "put xs a ys = take a xs @ ys @ drop (a + length ys) xs"

definition u16_at :: "bytes \<Rightarrow> nat \<Rightarrow> nat" where
  "u16_at pg k = 256 * unat (pg ! k) + unat (pg ! Suc k)"

definition u16_bytes :: "nat \<Rightarrow> bytes" where
  "u16_bytes v = [of_nat (v div 256), of_nat (v mod 256)]"

definition fits :: "bytes \<Rightarrow> bytes \<Rightarrow> bool" where
  "fits page record \<longleftrightarrow>
     4 * u16_at page 4092 + u16_at page 4094 + length record + 4 \<le> 4092"

definition page_after :: "bytes \<Rightarrow> bytes \<Rightarrow> bytes" where
  "page_after page record =
     (let sc = u16_at page 4092; fo = u16_at page 4094; n = length record
      in put (put (put (put (put page fo record)
                (4088 - 4 * sc) (u16_bytes fo))
                (4090 - 4 * sc) (u16_bytes n))
                4092 (u16_bytes (Suc sc)))
                4094 (u16_bytes (fo + n)))"

definition slot_off :: "bytes \<Rightarrow> nat \<Rightarrow> nat" where
  "slot_off page i = u16_at page (4088 - 4 * i)"

definition slot_len :: "bytes \<Rightarrow> nat \<Rightarrow> nat" where
  "slot_len page i = u16_at page (4090 - 4 * i)"

definition slot_count_of :: "bytes \<Rightarrow> nat" where
  "slot_count_of page = u16_at page 4092"

definition free_offset_of :: "bytes \<Rightarrow> nat" where
  "free_offset_of page = u16_at page 4094"

definition record_at :: "bytes \<Rightarrow> nat \<Rightarrow> bytes" where
  "record_at page i = take (slot_len page i) (drop (slot_off page i) page)"

definition page_records :: "bytes \<Rightarrow> bytes list" where
  "page_records page = map (record_at page) [0..<slot_count_of page]"

definition page_wf :: "bytes \<Rightarrow> bool" where
  "page_wf page \<longleftrightarrow>
     length page = 4096 \<and>
     4 * slot_count_of page + free_offset_of page \<le> 4092 \<and>
     (\<forall>i < slot_count_of page. slot_off page i + slot_len page i \<le> free_offset_of page)"

inductive reachable_page :: "bytes \<Rightarrow> bool" where
  reach_empty: "initialize_empty_page = Inr page \<Longrightarrow> reachable_page page"
| reach_insert: "reachable_page page \<Longrightarrow> insert_record_into_page page record = Inr (page', slot)
                 \<Longrightarrow> reachable_page page'"

definition corrupt_page :: bytes where
  "corrupt_page = replicate 4088 0 @ [0, 0, 0, 1, 0, 1, 0, 0]"

definition corrupt_page_after :: bytes where
  "corrupt_page_after = 1 # replicate 4083 0 @ [0, 0, 0, 1, 0, 0, 0, 1, 0, 2, 0, 1]"

definition demo_page :: bytes where
  "demo_page = [7, 7, 7] @ replicate 4085 0 @ [0, 0, 0, 3, 0, 1, 0, 3]"

definition page_of :: "bytes \<Rightarrow> nat \<Rightarrow> bytes" where
  "page_of content p = take 4096 (drop (4096 * p) content)"

definition num_pages_of :: "bytes \<Rightarrow> nat" where
  "num_pages_of content = length content div 4096"

definition pages_of :: "bytes \<Rightarrow> bytes list" where
  "pages_of content = map (page_of content) [0..<num_pages_of content]"

definition file_after_create :: "filesystem \<Rightarrow> pystr \<Rightarrow> bytes" where
  "file_after_create fs fname =
     (case fs fname of
        None \<Rightarrow> replicate 4096 0
      | Some content \<Rightarrow> if content = [] then replicate 4096 0 else content)"

definition has_room :: "bytes \<Rightarrow> bytes \<Rightarrow> bool" where
  "has_room page rcd =
     (case free_space_in_page page of
        Inl e \<Rightarrow> False
      | Inr free \<Rightarrow> int (length rcd) + 4 \<le> free)"

definition full_page :: bytes where
  "full_page = replicate 4088 7 @ [0, 0, 15, 248, 0, 1, 15, 248]"

definition heap_name :: pystr where
  "heap_name = [116, 46, 104, 101, 97, 112]"

definition two_page_fs :: filesystem where
  "two_page_fs = (\<lambda>f. None)(heap_name \<mapsto> full_page @ demo_page)"

definition no_files :: filesystem where
  "no_files = (\<lambda>f. None)"

definition full_fs :: filesystem where
  "full_fs = (\<lambda>f. None)(heap_name \<mapsto> full_page)"

definition page_entries :: "bytes \<Rightarrow> nat \<Rightarrow> (int \<times> int \<times> bytes) list" where
  "page_entries content p =
     map (\<lambda>s. (int p, int s, record_at (page_of content p) s))
       [0..<slot_count_of (page_of content p)]"

definition file_records :: "bytes \<Rightarrow> (int \<times> int \<times> bytes) list" where
  "file_records content = concat (map (page_entries content) [0..<num_pages_of content])"

definition page_packed :: "bytes \<Rightarrow> bool" where
  "page_packed page \<longleftrightarrow>
     page_wf page \<and> sum_list (map length (page_records page)) = free_offset_of page"

definition file_wf :: "bytes \<Rightarrow> bool" where
  "file_wf content \<longleftrightarrow>
     content \<noteq> [] \<and> length content = 4096 * num_pages_of content \<and>
     (\<forall>p < num_pages_of content. page_packed (page_of content p))"

definition insertable :: "bytes \<Rightarrow> bool" where
  "insertable r \<longleftrightarrow> length r \<le> 4088"

fun insert_many ::
  "filesystem \<Rightarrow> pystr \<Rightarrow> bytes list \<Rightarrow> ((int \<times> int) list \<times> py_error option) \<times> filesystem" where
  "insert_many fs fname [] = (([], None), fs)"
| "insert_many fs fname (r # rs) =
     (case insert_record fs fname r of
        (Inl e, fs') \<Rightarrow> (([], Some e), fs')
      | (Inr a, fs') \<Rightarrow>
          (case insert_many fs' fname rs of
             ((addrs, err), fs'') \<Rightarrow> ((a # addrs, err), fs'')))"

definition inserted :: "(int \<times> int) list \<Rightarrow> bytes list \<Rightarrow> (int \<times> int \<times> bytes) list" where
  "inserted addrs recs = map (\<lambda>(a, r). (fst a, snd a, r)) (zip addrs recs)"

definition stored :: "filesystem \<Rightarrow> pystr \<Rightarrow> (int \<times> int \<times> bytes) list" where
  "stored fs fname = (case fs fname of None \<Rightarrow> [] | Some c \<Rightarrow> file_records c)"

definition fs_ok :: "filesystem \<Rightarrow> pystr \<Rightarrow> bool" where
  "fs_ok fs fname = (case fs fname of None \<Rightarrow> True | Some c \<Rightarrow> c = [] \<or> file_wf c)"

definition addr_less :: "(int \<times> int \<times> bytes) \<Rightarrow> (int \<times> int \<times> bytes) \<Rightarrow> bool" where
  "addr_less e e' \<longleftrightarrow> fst e < fst e' \<or> (fst e = fst e' \<and> fst (snd e) < fst (snd e'))"

definition total_bytes :: "(int \<times> int \<times> bytes) list \<Rightarrow> nat" where
  "total_bytes es = sum_list (map (\<lambda>e. length (snd (snd e))) es)"

definition employee_table :: table_desc where
  "employee_table =
     \<lparr>table_name = str_of ''Employee'', file_name = Some (str_of ''employee.heap''),
      table_fields =
        [\<lparr>field_name = str_of ''id'', field_type = str_of ''int''\<rparr>,
         \<lparr>field_name = str_of ''name'', field_type = str_of ''char(20)''\<rparr>,
         \<lparr>field_name = str_of ''salary'', field_type = str_of ''float''\<rparr>]\<rparr>"

definition demo_schema :: schema where
  "demo_schema = (\<lambda>t. None)(str_of ''Employee'' \<mapsto> employee_table)"

fun value_ok :: "field_type_desc \<Rightarrow> pyval \<Rightarrow> bool" where
  "value_ok TInt (VInt i) = (- 2147483648 \<le> i \<and> i < 2147483648)"
| "value_ok TFloat (VFloat w) = (\<not> float_is_nan w)"
| "value_ok (TChar n) (VStr s) =
     (case utf8_encode s of
        Inl e \<Rightarrow> False
      | Inr b \<Rightarrow> int (length b) \<le> n \<and> (b = [] \<or> last b \<noteq> 0))"
| "value_ok (TVarchar n) (VStr s) =
     (case utf8_encode s of
        Inl e \<Rightarrow> False
      | Inr b \<Rightarrow> int (length b) \<le> n \<and> length b \<le> 255)"
| "value_ok t v = False"

definition width_ok :: "field_type_desc \<Rightarrow> bool" where
  "width_ok t = (case t of TChar n \<Rightarrow> 0 \<le> n | TVarchar n \<Rightarrow> 0 \<le> n | _ \<Rightarrow> True)"

definition decoded_default :: "field_type_desc \<Rightarrow> pyval" where
  "decoded_default t = (case t of TInt \<Rightarrow> VInt 0 | TFloat \<Rightarrow> VFloat 0 | _ \<Rightarrow> VStr [])"

definition field_ok :: "(pystr \<Rightarrow> pyval option) \<Rightarrow> field_desc \<Rightarrow> bool" where
  "field_ok r f =
     (case parse_type (field_type f) of
        Inl e \<Rightarrow> False
      | Inr t \<Rightarrow> (case r (field_name f) of Some v \<Rightarrow> value_ok t v | None \<Rightarrow> width_ok t))"

definition field_width :: "field_type_desc \<Rightarrow> int" where
  "field_width t = (case t of TInt \<Rightarrow> 4 | TFloat \<Rightarrow> 4 | TChar n \<Rightarrow> n | TVarchar n \<Rightarrow> 1 + n)"

definition decode_one :: "field_type_desc \<Rightarrow> bytes \<Rightarrow> py_error + pyval" where
  "decode_one t chunk =
     (case t of
        TInt \<Rightarrow> (case unpack_int chunk of Inl e \<Rightarrow> Inl e | Inr v \<Rightarrow> Inr (VInt v))
      | TFloat \<Rightarrow> (case unpack_float chunk of Inl e \<Rightarrow> Inl e | Inr v \<Rightarrow> Inr (VFloat v))
      | TChar n \<Rightarrow> (case unpack_char chunk of Inl e \<Rightarrow> Inl e | Inr v \<Rightarrow> Inr (VStr v))
      | TVarchar n \<Rightarrow> (case unpack_varchar chunk n of Inl e \<Rightarrow> Inl e | Inr v \<Rightarrow> Inr (VStr v)))"

definition expected :: "(pystr \<Rightarrow> pyval option) \<Rightarrow> field_desc \<Rightarrow> pyval" where
  "expected r f =
     (case parse_type (field_type f) of
        Inl e \<Rightarrow> VInt 0
      | Inr t \<Rightarrow> (case r (field_name f) of Some v \<Rightarrow> v | None \<Rightarrow> decoded_default t))"

fun fill :: "(pystr \<Rightarrow> pyval option) \<Rightarrow> field_desc list \<Rightarrow> (pystr \<Rightarrow> pyval option)
             \<Rightarrow> (pystr \<Rightarrow> pyval option)" where
  "fill r [] res = res"
| "fill r (f # fs) res = fill r fs (res(field_name f \<mapsto> expected r f))"

definition employee_record :: "pystr \<Rightarrow> pyval option" where
  "employee_record =
     (\<lambda>k. None)(str_of ''id'' \<mapsto> VInt (- 5), str_of ''name'' \<mapsto> VStr (replicate 20 97),
                str_of ''salary'' \<mapsto> VFloat 0)"

definition alice_record :: "pystr \<Rightarrow> pyval option" where
  "alice_record =
     (\<lambda>k. None)(str_of ''id'' \<mapsto> VInt 1, str_of ''name'' \<mapsto> VStr [],
                str_of ''salary'' \<mapsto> VFloat 1166843904)"

definition wide_table :: table_desc where
  "wide_table =
     \<lparr>table_name = str_of ''T'', file_name = None,
      table_fields = [\<lparr>field_name = str_of ''v'', field_type = str_of ''varchar(300)''\<rparr>]\<rparr>"

definition wide_schema :: schema where
  "wide_schema = (\<lambda>t. None)(str_of ''T'' \<mapsto> wide_table)"

definition wide_record :: "pystr \<Rightarrow> pyval option" where
  "wide_record = (\<lambda>k. None)(str_of ''v'' \<mapsto> VStr (replicate 256 97))"

section \<open>Properties\<close>

lemma py_slice_nat: "py_slice xs (int a) (int b) = take (b - a) (drop a xs)"
  by (auto simp: py_slice_def slice_index_def Let_def min_def)

lemma py_slice_assign_nat:
  "a \<le> b \<Longrightarrow> py_slice_assign xs (int a) (int b) ys = take a xs @ ys @ drop b xs"
  by (auto simp: py_slice_assign_def slice_index_def Let_def min_def max_def)

lemma py_slice_assign_put:
  "py_slice_assign xs (int a) (int a + int (length ys)) ys = put xs a ys"
  using py_slice_assign_nat [of a "a + length ys" xs ys] by (simp add: put_def)

lemma length_put: "a + length ys \<le> length xs \<Longrightarrow> length (put xs a ys) = length xs"
  by (simp add: put_def)

lemma nth_put:
  "a + length ys \<le> length xs \<Longrightarrow> k < length xs \<Longrightarrow>
   put xs a ys ! k = (if a \<le> k \<and> k < a + length ys then ys ! (k - a) else xs ! k)"
  by (auto simp: put_def nth_append)

lemma length_u16_bytes: "length (u16_bytes v) = 2"
  by (simp add: u16_bytes_def)

lemma u16_at_less: "u16_at pg k < 65536"
proof -
  have "unat (pg ! k) < 256" "unat (pg ! Suc k) < 256"
    using unsigned_less [of "pg ! k"] unsigned_less [of "pg ! Suc k"] by simp_all
  then show ?thesis by (simp add: u16_at_def)
qed

lemma pack_uint16_ok: "v < 65536 \<Longrightarrow> pack_uint16 (int v) = Inr (u16_bytes v)"
proof -
  assume h: "v < 65536"
  have d: "int v div 256 = int (v div 256)" and m: "int v mod 256 = int (v mod 256)"
    using zdiv_int [of v 256] zmod_int [of v 256] by simp_all
  have "word_of_int (int v div 256) = (of_nat (v div 256) :: byte)"
    unfolding d by (rule of_int_of_nat_eq)
  moreover have "word_of_int (int v mod 256) = (of_nat (v mod 256) :: byte)"
    unfolding m by (rule of_int_of_nat_eq)
  ultimately show ?thesis
    using h by (simp add: pack_uint16_def u16_bytes_def)
qed

lemma unpack_at:
  assumes "k + 2 \<le> length pg"
  shows "unpack_uint16 (py_slice pg (int k) (int k + 2)) = Inr (int (u16_at pg k))"
proof -
  have "py_slice pg (int k) (int k + 2) = take 2 (drop k pg)"
    using py_slice_nat [of pg k "k + 2"] by (simp add: add.commute)
  moreover have "take 2 (drop k pg) = [pg ! k, pg ! Suc k]"
    using assms by (simp add: take_Suc_conv_app_nth numeral_2_eq_2)
  ultimately show ?thesis by (simp add: u16_at_def)
qed

lemma unat_byte: "v < 256 \<Longrightarrow> unat (of_nat v :: byte) = v"
  by (simp add: unat_of_nat)

lemma u16_at_put:
  "k + 2 \<le> length xs \<Longrightarrow> v < 65536 \<Longrightarrow> u16_at (put xs k (u16_bytes v)) k = v"
  by (simp add: u16_at_def nth_put length_u16_bytes) (simp add: u16_bytes_def unat_byte)

lemma read_footer_ok:
  assumes "length page = 4096"
  shows "read_footer page = Inr (int (u16_at page 4092), int (u16_at page 4094))"
proof -
  have a: "unpack_uint16 (py_slice page 4092 4094) = Inr (int (u16_at page 4092))"
    using unpack_at [of 4092 page] assms by simp
  have b: "unpack_uint16 (py_slice page 4094 4096) = Inr (int (u16_at page 4094))"
    using unpack_at [of 4094 page] assms by simp
  show ?thesis
    using assms by (simp add: read_footer_def PAGE_SIZE_def FOOTER_SIZE_def a b)
qed

lemma read_footer_length: "read_footer page = Inr r \<Longrightarrow> length page = 4096"
  by (auto simp: read_footer_def PAGE_SIZE_def split: if_splits)

lemma free_space_ok:
  "length page = 4096 \<Longrightarrow>
   free_space_in_page page = Inr (4092 - 4 * int (u16_at page 4092) - int (u16_at page 4094))"
  by (simp add: free_space_in_page_def read_footer_ok PAGE_SIZE_def FOOTER_SIZE_def
      SLOT_ENTRY_SIZE_def Let_def)

lemma write_footer_ok:
  assumes "length page = 4096" "sc < 65536" "fo < 65536"
  shows "write_footer page (int sc) (int fo) =
         Inr (put (put page 4092 (u16_bytes sc)) 4094 (u16_bytes fo))"
proof -
  have a: "py_slice_assign page 4092 4094 (u16_bytes sc) = put page 4092 (u16_bytes sc)"
    using py_slice_assign_put [of page 4092 "u16_bytes sc"] by (simp add: length_u16_bytes)
  have b: "py_slice_assign pg 4094 4096 (u16_bytes fo) = put pg 4094 (u16_bytes fo)" for pg
    using py_slice_assign_put [of pg 4094 "u16_bytes fo"] by (simp add: length_u16_bytes)
  show ?thesis
    using assms
    by (simp add: write_footer_def pack_uint16_ok PAGE_SIZE_def FOOTER_SIZE_def a b)
qed

lemma write_slot_ok:
  assumes "i \<le> 1022" "off < 65536" "len < 65536"
  shows "write_slot page (int i) (int off) (int len) =
         Inr (put (put page (4088 - 4 * i) (u16_bytes off)) (4090 - 4 * i) (u16_bytes len))"
proof -
  have p: "slot_pos (int i) = int (4088 - 4 * i)"
    using assms by (simp add: slot_pos_def PAGE_SIZE_def FOOTER_SIZE_def SLOT_ENTRY_SIZE_def)
  have q: "int (4088 - 4 * i) + 2 = int (4090 - 4 * i)" "int (4088 - 4 * i) + 4 = int (4090 - 4 * i) + 2"
    using assms by simp_all
  have a: "py_slice_assign page (int (4088 - 4 * i)) (int (4090 - 4 * i)) (u16_bytes off)
           = put page (4088 - 4 * i) (u16_bytes off)"
    using py_slice_assign_put [of page "4088 - 4 * i" "u16_bytes off"] q
    by (simp add: length_u16_bytes)
  have b: "py_slice_assign pg (int (4090 - 4 * i)) (int (4090 - 4 * i) + 2) (u16_bytes len)
           = put pg (4090 - 4 * i) (u16_bytes len)" for pg
    using py_slice_assign_put [of pg "4090 - 4 * i" "u16_bytes len"]
    by (simp add: length_u16_bytes)
  show ?thesis
    unfolding write_slot_def Let_def p
    by (simp only: pack_uint16_ok [OF assms(2)] pack_uint16_ok [OF assms(3)] sum.case q a b)
qed

lemma nth_zero_pair: "k < 2 \<Longrightarrow> [0, 0 :: byte] ! k = 0"
  by (cases k) simp_all

lemma initialize_empty_page_eq: "initialize_empty_page = Inr (replicate 4096 0)"
proof -
  have z: "u16_bytes 0 = [0, 0]" by (simp add: u16_bytes_def)
  have "write_footer (replicate 4096 0) (int 0) (int 0)
        = Inr (put (put (replicate 4096 0) 4092 (u16_bytes 0)) 4094 (u16_bytes 0))"
    by (rule write_footer_ok) simp_all
  moreover have "put (put (replicate 4096 (0::byte)) 4092 [0, 0]) 4094 [0, 0] = replicate 4096 0"
    by (rule nth_equalityI) (simp_all add: length_put nth_put nth_zero_pair)
  ultimately show ?thesis
    by (simp add: initialize_empty_page_def PAGE_SIZE_def z)
qed

lemma fits_iff_free_space:
  "length page = 4096 \<Longrightarrow>
   fits page record \<longleftrightarrow>
   (\<exists>f. free_space_in_page page = Inr f \<and> int (length record) + 4 \<le> f)"
  by (auto simp: free_space_ok fits_def)

lemma insert_ok:
  assumes len: "length page = 4096" and fit: "fits page record"
  shows "insert_record_into_page page record = Inr (page_after page record, int (u16_at page 4092))"
proof -
  define sc where "sc = u16_at page 4092"
  define fo where "fo = u16_at page 4094"
  define n where "n = length record"
  have b: "4 * sc + fo + n + 4 \<le> 4092"
    using fit by (simp add: fits_def sc_def fo_def n_def)
  define pg1 where "pg1 = put page fo record"
  have l1: "length pg1 = 4096"
    using b len by (simp add: pg1_def length_put n_def)
  have s1: "py_slice_assign page (int fo) (int fo + int (length record)) record = pg1"
    by (simp add: pg1_def py_slice_assign_put)
  define pg2 where "pg2 = put (put pg1 (4088 - 4 * sc) (u16_bytes fo)) (4090 - 4 * sc) (u16_bytes n)"
  have l2: "length pg2 = 4096"
    using b l1 by (simp add: pg2_def length_put length_u16_bytes)
  have s2: "write_slot pg1 (int sc) (int fo) (int n) = Inr pg2"
    unfolding pg2_def using b by (intro write_slot_ok) simp_all
  have s3: "write_footer pg2 (int (Suc sc)) (int (fo + n))
            = Inr (put (put pg2 4092 (u16_bytes (Suc sc))) 4094 (u16_bytes (fo + n)))"
    using b l2 by (intro write_footer_ok) simp_all
  have s3': "write_footer pg2 (int sc + 1) (int fo + int n)
            = Inr (put (put pg2 4092 (u16_bytes (Suc sc))) 4094 (u16_bytes (fo + n)))"
    using s3 by (simp add: add.commute)
  have fin: "put (put pg2 4092 (u16_bytes (Suc sc))) 4094 (u16_bytes (fo + n)) = page_after page record"
    by (simp add: page_after_def Let_def pg2_def pg1_def sc_def fo_def n_def)
  have free: "free_space_in_page page = Inr (4092 - 4 * int sc - int fo)"
    using len by (simp add: free_space_ok sc_def fo_def)
  have nolt: "\<not> (4092 - 4 * int sc - int fo < int (length record) + 4)"
    using b by (simp add: n_def)
  show ?thesis
    unfolding insert_record_into_page_def Let_def read_footer_ok [OF len]
    using free nolt s1 s2 s3' fin
    by (simp add: SLOT_ENTRY_SIZE_def sc_def [symmetric] fo_def [symmetric] n_def [symmetric])
qed

lemma insert_full:
  assumes len: "length page = 4096" and nofit: "\<not> fits page record"
  shows "insert_record_into_page page record = Inl (ValueError (str_of ''Not enough space in page''))"
proof -
  have "4092 - 4 * int (u16_at page 4092) - int (u16_at page 4094) < int (length record) + 4"
    using nofit by (simp add: fits_def)
  then show ?thesis
    unfolding insert_record_into_page_def Let_def read_footer_ok [OF len]
    by (simp add: free_space_ok [OF len] SLOT_ENTRY_SIZE_def)
qed

lemma insert_bad_length:
  "length page \<noteq> 4096 \<Longrightarrow>
   insert_record_into_page page record = Inl (ValueError (str_of ''page must be PAGE_SIZE bytes''))"
  by (simp add: insert_record_into_page_def read_footer_def PAGE_SIZE_def)

lemma u16_at_cong:
  "xs ! k = ys ! k \<Longrightarrow> xs ! Suc k = ys ! Suc k \<Longrightarrow> u16_at xs k = u16_at ys k"
  by (simp add: u16_at_def)

lemma u16_at_put_other:
  "a + length ys \<le> length xs \<Longrightarrow> Suc k < length xs \<Longrightarrow> Suc k < a \<or> a + length ys \<le> k \<Longrightarrow>
   u16_at (put xs a ys) k = u16_at xs k"
  by (rule u16_at_cong) (auto simp: nth_put)

lemma take_drop_cong:
  assumes "length xs = length ys"
    and "\<And>k. a \<le> k \<Longrightarrow> k < a + n \<Longrightarrow> k < length xs \<Longrightarrow> xs ! k = ys ! k"
  shows "take n (drop a xs) = take n (drop a ys)"
proof (rule nth_equalityI)
  show "length (take n (drop a xs)) = length (take n (drop a ys))"
    using assms(1) by simp
next
  fix i
  assume "i < length (take n (drop a xs))"
  then have i: "i < n" "a + i < length xs" by auto
  then have "xs ! (a + i) = ys ! (a + i)"
    by (intro assms(2)) simp_all
  then show "take n (drop a xs) ! i = take n (drop a ys) ! i"
    using i assms(1) by simp
qed

lemma put5:
  fixes page :: bytes
  assumes len: "length page = 4096" and b: "4 * sc + fo + length record + 4 \<le> 4092"
  defines "pg \<equiv> put (put (put (put (put page fo record)
                (4088 - 4 * sc) (u16_bytes fo))
                (4090 - 4 * sc) (u16_bytes (length record)))
                4092 (u16_bytes (Suc sc)))
                4094 (u16_bytes (fo + length record))"
  shows "length pg = 4096"
    and "u16_at pg 4092 = Suc sc"
    and "u16_at pg 4094 = fo + length record"
    and "u16_at pg (4088 - 4 * sc) = fo"
    and "u16_at pg (4090 - 4 * sc) = length record"
    and "\<And>k. k < 4092 \<Longrightarrow> k < fo \<or> (fo + length record \<le> k \<and> k < 4088 - 4 * sc) \<or> 4092 - 4 * sc \<le> k
          \<Longrightarrow> pg ! k = page ! k"
    and "\<And>k. fo \<le> k \<Longrightarrow> k < fo + length record \<Longrightarrow> pg ! k = record ! (k - fo)"
proof -
  define p1 where "p1 = put page fo record"
  define p2 where "p2 = put p1 (4088 - 4 * sc) (u16_bytes fo)"
  define p3 where "p3 = put p2 (4090 - 4 * sc) (u16_bytes (length record))"
  define p4 where "p4 = put p3 4092 (u16_bytes (Suc sc))"
  have pg: "pg = put p4 4094 (u16_bytes (fo + length record))"
    by (simp add: pg_def p1_def p2_def p3_def p4_def)
  have l1: "length p1 = 4096" using len b by (simp add: p1_def length_put)
  have l2: "length p2 = 4096" using l1 b by (simp add: p2_def length_put length_u16_bytes)
  have l3: "length p3 = 4096" using l2 b by (simp add: p3_def length_put length_u16_bytes)
  have l4: "length p4 = 4096" using l3 b by (simp add: p4_def length_put length_u16_bytes)
  show "length pg = 4096" using l4 by (simp add: pg length_put length_u16_bytes)
  have "u16_at pg 4092 = u16_at p4 4092"
    unfolding pg using l4 by (intro u16_at_put_other) (auto simp: length_u16_bytes)
  also have "\<dots> = Suc sc"
    unfolding p4_def using l3 b by (intro u16_at_put) auto
  finally show "u16_at pg 4092 = Suc sc" .
  show "u16_at pg 4094 = fo + length record"
    unfolding pg using l4 b by (intro u16_at_put) auto
  have "u16_at pg (4088 - 4 * sc) = u16_at p4 (4088 - 4 * sc)"
    unfolding pg using l4 by (intro u16_at_put_other) (auto simp: length_u16_bytes)
  also have "\<dots> = u16_at p3 (4088 - 4 * sc)"
    unfolding p4_def using l3 by (intro u16_at_put_other) (auto simp: length_u16_bytes)
  also have "\<dots> = u16_at p2 (4088 - 4 * sc)"
    unfolding p3_def using l2 b by (intro u16_at_put_other) (auto simp: length_u16_bytes)
  also have "\<dots> = fo"
    unfolding p2_def using l1 b by (intro u16_at_put) auto
  finally show "u16_at pg (4088 - 4 * sc) = fo" .
  have "u16_at pg (4090 - 4 * sc) = u16_at p4 (4090 - 4 * sc)"
    unfolding pg using l4 by (intro u16_at_put_other) (auto simp: length_u16_bytes)
  also have "\<dots> = u16_at p3 (4090 - 4 * sc)"
    unfolding p4_def using l3 by (intro u16_at_put_other) (auto simp: length_u16_bytes)
  also have "\<dots> = length record"
    unfolding p3_def using l2 b by (intro u16_at_put) auto
  finally show "u16_at pg (4090 - 4 * sc) = length record" .
  show "pg ! k = page ! k"
    if "k < 4092" "k < fo \<or> (fo + length record \<le> k \<and> k < 4088 - 4 * sc) \<or> 4092 - 4 * sc \<le> k" for k
  proof -
    have "pg ! k = p4 ! k" unfolding pg using l4 that by (simp add: nth_put length_u16_bytes)
    also have "\<dots> = p3 ! k" unfolding p4_def using l3 that by (simp add: nth_put length_u16_bytes)
    also have "\<dots> = p2 ! k" unfolding p3_def using l2 that b by (auto simp: nth_put length_u16_bytes)
    also have "\<dots> = p1 ! k" unfolding p2_def using l1 that b by (auto simp: nth_put length_u16_bytes)
    also have "\<dots> = page ! k" unfolding p1_def using len that b by (auto simp: nth_put)
    finally show ?thesis .
  qed
  show "pg ! k = record ! (k - fo)" if "fo \<le> k" "k < fo + length record" for k
  proof -
    have "pg ! k = p4 ! k" unfolding pg using l4 that b by (simp add: nth_put length_u16_bytes)
    also have "\<dots> = p3 ! k" unfolding p4_def using l3 that b by (simp add: nth_put length_u16_bytes)
    also have "\<dots> = p2 ! k" unfolding p3_def using l2 that b by (auto simp: nth_put length_u16_bytes)
    also have "\<dots> = p1 ! k" unfolding p2_def using l1 that b by (auto simp: nth_put length_u16_bytes)
    also have "\<dots> = record ! (k - fo)" unfolding p1_def using len that b by (auto simp: nth_put)
    finally show ?thesis .
  qed
qed

lemma fits_bound:
  "fits page record \<Longrightarrow>
   4 * slot_count_of page + free_offset_of page + length record + 4 \<le> 4092"
  by (simp add: fits_def slot_count_of_def free_offset_of_def)

lemma page_after_eq:
  "page_after page record =
     put (put (put (put (put page (free_offset_of page) record)
        (4088 - 4 * slot_count_of page) (u16_bytes (free_offset_of page)))
        (4090 - 4 * slot_count_of page) (u16_bytes (length record)))
        4092 (u16_bytes (Suc (slot_count_of page))))
        4094 (u16_bytes (free_offset_of page + length record))"
  by (simp add: page_after_def Let_def slot_count_of_def free_offset_of_def)

lemma length_page_after:
  "length page = 4096 \<Longrightarrow> fits page record \<Longrightarrow> length (page_after page record) = 4096"
  unfolding page_after_eq by (rule put5(1)) (auto dest: fits_bound)

lemma slot_count_page_after:
  "length page = 4096 \<Longrightarrow> fits page record \<Longrightarrow>
   slot_count_of (page_after page record) = Suc (slot_count_of page)"
  unfolding page_after_eq slot_count_of_def [of "put _ _ _"]
  by (rule put5(2)) (auto dest: fits_bound)

lemma free_offset_page_after:
  "length page = 4096 \<Longrightarrow> fits page record \<Longrightarrow>
   free_offset_of (page_after page record) = free_offset_of page + length record"
  unfolding page_after_eq free_offset_of_def [of "put _ _ _"]
  by (rule put5(3)) (auto dest: fits_bound)

lemma new_slot_off:
  "length page = 4096 \<Longrightarrow> fits page record \<Longrightarrow>
   slot_off (page_after page record) (slot_count_of page) = free_offset_of page"
  unfolding page_after_eq slot_off_def
  by (rule put5(4)) (auto dest: fits_bound)

lemma new_slot_len:
  "length page = 4096 \<Longrightarrow> fits page record \<Longrightarrow>
   slot_len (page_after page record) (slot_count_of page) = length record"
  unfolding page_after_eq slot_len_def
  by (rule put5(5)) (auto dest: fits_bound)

lemma nth_page_after_old:
  assumes "length page = 4096" "fits page record" "k < 4092"
    and "k < free_offset_of page \<or>
         (free_offset_of page + length record \<le> k \<and> k < 4088 - 4 * slot_count_of page) \<or>
         4092 - 4 * slot_count_of page \<le> k"
  shows "page_after page record ! k = page ! k"
  unfolding page_after_eq using assms by (intro put5(6)) (auto dest: fits_bound)

lemma nth_page_after_record:
  assumes "length page = 4096" "fits page record"
    and "free_offset_of page \<le> k" "k < free_offset_of page + length record"
  shows "page_after page record ! k = record ! (k - free_offset_of page)"
  unfolding page_after_eq using assms by (intro put5(7)) (auto dest: fits_bound)

lemma old_slot_off:
  assumes "length page = 4096" "fits page record" "i < slot_count_of page"
  shows "slot_off (page_after page record) i = slot_off page i"
  unfolding slot_off_def using assms fits_bound [OF assms(2)]
  by (intro u16_at_cong nth_page_after_old) auto

lemma old_slot_len:
  assumes "length page = 4096" "fits page record" "i < slot_count_of page"
  shows "slot_len (page_after page record) i = slot_len page i"
  unfolding slot_len_def using assms fits_bound [OF assms(2)]
  by (intro u16_at_cong nth_page_after_old) auto

lemma old_record_at:
  assumes "length page = 4096" "fits page record" "i < slot_count_of page"
    and "slot_off page i + slot_len page i \<le> free_offset_of page"
  shows "record_at (page_after page record) i = record_at page i"
proof -
  have "take (slot_len page i) (drop (slot_off page i) (page_after page record))
        = take (slot_len page i) (drop (slot_off page i) page)"
  proof (rule take_drop_cong)
    show "length (page_after page record) = length page"
      using assms by (simp add: length_page_after)
  next
    fix k
    assume "slot_off page i \<le> k" "k < slot_off page i + slot_len page i"
    then have "k < free_offset_of page" using assms(4) by simp
    moreover have "free_offset_of page \<le> 4092" using fits_bound [OF assms(2)] by simp
    ultimately show "page_after page record ! k = page ! k"
      using assms by (intro nth_page_after_old) auto
  qed
  then show ?thesis
    using assms by (simp add: record_at_def old_slot_off old_slot_len)
qed

lemma new_record_at:
  assumes "length page = 4096" "fits page record"
  shows "record_at (page_after page record) (slot_count_of page) = record"
proof -
  have b: "free_offset_of page + length record \<le> 4096"
    using fits_bound [OF assms(2)] by simp
  have "take (length record) (drop (free_offset_of page) (page_after page record)) = record"
  proof (rule nth_equalityI)
    show "length (take (length record) (drop (free_offset_of page) (page_after page record)))
          = length record"
      using assms b by (simp add: length_page_after)
  next
    fix i
    assume "i < length (take (length record) (drop (free_offset_of page) (page_after page record)))"
    then have i: "i < length record" by simp
    then have "page_after page record ! (free_offset_of page + i) = record ! i"
      using nth_page_after_record [OF assms, of "free_offset_of page + i"] by simp
    then show "take (length record) (drop (free_offset_of page) (page_after page record)) ! i
               = record ! i"
      using i b assms by (simp add: length_page_after)
  qed
  then show ?thesis
    using assms by (simp add: record_at_def new_slot_off new_slot_len)
qed

lemma page_wf_empty: "page_wf (replicate 4096 0)"
  by (simp add: page_wf_def slot_count_of_def free_offset_of_def u16_at_def)

lemma page_wf_page_after:
  assumes "page_wf page" "fits page record"
  shows "page_wf (page_after page record)"
proof -
  have len: "length page = 4096" using assms(1) by (simp add: page_wf_def)
  have b: "4 * slot_count_of page + free_offset_of page + length record + 4 \<le> 4092"
    using assms(2) by (rule fits_bound)
  have "slot_off (page_after page record) i + slot_len (page_after page record) i
        \<le> free_offset_of page + length record" if "i < Suc (slot_count_of page)" for i
  proof (cases "i = slot_count_of page")
    case True
    then show ?thesis using len assms(2) by (simp add: new_slot_off new_slot_len)
  next
    case False
    then have "i < slot_count_of page" using that by simp
    then show ?thesis
      using len assms by (simp add: old_slot_off old_slot_len page_wf_def trans_le_add1)
  qed
  then show ?thesis
    using len assms(2) b
    by (simp add: page_wf_def length_page_after slot_count_page_after free_offset_page_after)
qed

lemma page_records_page_after:
  assumes "page_wf page" "fits page record"
  shows "page_records (page_after page record) = page_records page @ [record]"
proof -
  have len: "length page = 4096" using assms(1) by (simp add: page_wf_def)
  have "map (record_at (page_after page record)) [0..<slot_count_of page]
        = map (record_at page) [0..<slot_count_of page]"
    using assms len by (intro map_cong refl old_record_at) (auto simp: page_wf_def)
  then show ?thesis
    using len assms(2) by (simp add: page_records_def slot_count_page_after new_record_at)
qed

lemma insert_cases:
  "insert_record_into_page page record =
     (if length page \<noteq> 4096 then Inl (ValueError (str_of ''page must be PAGE_SIZE bytes''))
      else if fits page record then Inr (page_after page record, int (slot_count_of page))
      else Inl (ValueError (str_of ''Not enough space in page'')))"
  by (simp add: insert_ok insert_full insert_bad_length slot_count_of_def)

lemma insert_InrD:
  assumes "insert_record_into_page page record = Inr (pg, s)"
  shows "length page = 4096" "fits page record" "pg = page_after page record"
    "s = int (slot_count_of page)"
  using assms by (auto simp: insert_cases split: if_splits)

lemma read_footer_of:
  "length page = 4096 \<Longrightarrow>
   read_footer page = Inr (int (slot_count_of page), int (free_offset_of page))"
  by (simp add: read_footer_ok slot_count_of_def free_offset_of_def)

lemma free_space_of:
  "length page = 4096 \<Longrightarrow>
   free_space_in_page page = Inr (4092 - 4 * int (slot_count_of page) - int (free_offset_of page))"
  by (simp add: free_space_ok slot_count_of_def free_offset_of_def)

lemma get_record_ok:
  assumes len: "length page = 4096" and i: "i < slot_count_of page" "i \<le> 1022"
  shows "get_record_from_page page (int i) = Inr (record_at page i)"
proof -
  have p: "slot_pos (int i) = int (4088 - 4 * i)"
    using i by (simp add: slot_pos_def PAGE_SIZE_def FOOTER_SIZE_def SLOT_ENTRY_SIZE_def)
  have q: "int (4088 - 4 * i) + 2 = int (4090 - 4 * i)"
    "int (4088 - 4 * i) + 4 = int (4090 - 4 * i) + 2"
    using i by simp_all
  have a: "unpack_uint16 (py_slice page (int (4088 - 4 * i)) (int (4088 - 4 * i) + 2))
           = Inr (int (slot_off page i))"
    unfolding slot_off_def using len i by (intro unpack_at) simp
  have b: "unpack_uint16 (py_slice page (int (4090 - 4 * i)) (int (4090 - 4 * i) + 2))
           = Inr (int (slot_len page i))"
    unfolding slot_len_def using len i by (intro unpack_at) simp
  have a': "unpack_uint16 (py_slice page (int (4088 - 4 * i)) (int (4090 - 4 * i)))
           = Inr (int (slot_off page i))"
    using a by (simp only: q)
  have rs: "read_slot page (int i) (int (slot_count_of page))
            = Inr (int (slot_off page i), int (slot_len page i))"
    unfolding read_slot_def Let_def p using i(1)
    by (simp only: q a' b sum.case) simp
  have sl: "py_slice page (int (slot_off page i)) (int (slot_off page i) + int (slot_len page i))
            = record_at page i"
    using py_slice_nat [of page "slot_off page i" "slot_off page i + slot_len page i"]
    by (simp add: record_at_def)
  show ?thesis
    unfolding get_record_from_page_def read_footer_of [OF len] by (simp add: rs sl)
qed

lemma reachable_wf: "reachable_page page \<Longrightarrow> page_wf page"
proof (induction rule: reachable_page.induct)
  case (reach_empty page)
  then show ?case using page_wf_empty by (auto simp: initialize_empty_page_eq)
next
  case (reach_insert page rcd page' slot)
  from insert_InrD [OF reach_insert(2)] reach_insert(3)
  show ?case by (simp add: page_wf_page_after)
qed

lemma cp_len: "length corrupt_page = 4096" by (simp add: corrupt_page_def)

lemma cp_sc: "slot_count_of corrupt_page = 1"
  by (simp add: corrupt_page_def slot_count_of_def u16_at_def nth_append)

lemma cp_fo: "free_offset_of corrupt_page = 0"
  by (simp add: corrupt_page_def free_offset_of_def u16_at_def nth_append)

lemma cp_after: "page_after corrupt_page [1] = corrupt_page_after"
  unfolding page_after_eq cp_sc cp_fo
  by (simp add: corrupt_page_def corrupt_page_after_def put_def u16_bytes_def)

lemma cpa_len: "length corrupt_page_after = 4096" by (simp add: corrupt_page_after_def)

lemma demo_len: "length demo_page = 4096" by (simp add: demo_page_def)

lemma demo_sc: "slot_count_of demo_page = 1"
  by (simp add: demo_page_def slot_count_of_def u16_at_def nth_append)

lemma demo_fo: "free_offset_of demo_page = 3"
  by (simp add: demo_page_def free_offset_of_def u16_at_def nth_append)

lemma zero_page_after: "page_after (replicate 4096 0) [7, 7, 7] = demo_page"
proof -
  have "slot_count_of (replicate 4096 0) = 0" "free_offset_of (replicate 4096 0) = 0"
    by (simp_all add: slot_count_of_def free_offset_of_def u16_at_def)
  then show ?thesis
    unfolding page_after_eq by (simp add: demo_page_def put_def u16_bytes_def)
qed

subsection \<open>Free space of reachable pages\<close>

text \<open>
  Claim C5. Every page reachable from \<open>initialize_empty_page\<close> by successful inserts has a
  footer with \<open>free_offset \<le> 4092 - 4 * slot_count\<close>, so its free space is not negative;
  and every successful insert of a record of length \<open>L\<close> into a page image lowers the
  free space by exactly \<open>L + 4\<close>.
\<close>

theorem free_space_invariant:
  "(reachable_page page \<longrightarrow>
      (\<exists>slot_count free_offset.
          read_footer page = Inr (slot_count, free_offset) \<and>
          free_offset \<le> 4092 - 4 * slot_count \<and>
          free_space_in_page page = Inr (4092 - 4 * slot_count - free_offset) \<and>
          0 \<le> 4092 - 4 * slot_count - free_offset)) \<and>
   (insert_record_into_page pg rcd = Inr (pg', slot) \<longrightarrow>
      (\<exists>free. free_space_in_page pg = Inr free \<and>
              free_space_in_page pg' = Inr (free - (int (length rcd) + 4))))"
proof (intro conjI impI)
  assume "reachable_page page"
  then have "page_wf page" by (rule reachable_wf)
  then show "\<exists>slot_count free_offset.
          read_footer page = Inr (slot_count, free_offset) \<and>
          free_offset \<le> 4092 - 4 * slot_count \<and>
          free_space_in_page page = Inr (4092 - 4 * slot_count - free_offset) \<and>
          0 \<le> 4092 - 4 * slot_count - free_offset"
    by (auto simp: page_wf_def read_footer_of free_space_of)
next
  assume "insert_record_into_page pg rcd = Inr (pg', slot)"
  note h = insert_InrD [OF this]
  show "\<exists>free. free_space_in_page pg = Inr free \<and>
              free_space_in_page pg' = Inr (free - (int (length rcd) + 4))"
    using h by (simp add: free_space_of length_page_after slot_count_page_after
        free_offset_page_after)
qed

theorem free_space_invariant_witness:
  "reachable_page demo_page \<and>
   insert_record_into_page (replicate 4096 0) [7, 7, 7] = Inr (demo_page, 0) \<and>
   free_space_in_page (replicate 4096 0) = Inr 4092 \<and>
   free_space_in_page demo_page = Inr 4085"
proof -
  have e: "reachable_page (replicate 4096 0)"
    by (rule reach_empty) (rule initialize_empty_page_eq)
  have i: "insert_record_into_page (replicate 4096 0) [7, 7, 7] = Inr (demo_page, 0)"
    by (simp add: insert_cases fits_def slot_count_of_def u16_at_def zero_page_after)
  have r: "reachable_page demo_page"
    using e i by (rule reach_insert)
  have f: "free_space_in_page (replicate 4096 0) = Inr 4092"
    by (simp add: free_space_ok u16_at_def)
  show ?thesis
    using free_space_invariant [of demo_page "replicate 4096 0" "[7, 7, 7]" demo_page 0] r i f
    by auto
qed

subsection \<open>Frame of a page insert\<close>

text \<open>
  Claim C9, as amended. After a successful \<open>insert_record_into_page\<close>, the slot entries
  below the old slot count and the bytes in \<open>[0, old free_offset)\<close> are unchanged in the
  new page image. When moreover every slot of the input page lies inside the record
  region \<open>[0, free_offset)\<close> (\<open>page_wf\<close>, which holds of every reachable page), each
  stored record is read back unchanged from the new image.
\<close>

theorem insert_preserves_stored_data:
  assumes ins: "insert_record_into_page page rcd = Inr (page', slot)"
    and ft: "read_footer page = Inr (slot_count, free_offset)"
  shows "(\<forall>i. 0 \<le> i \<and> i < slot_count \<longrightarrow>
            py_slice page' (slot_pos i) (slot_pos i + 4) = py_slice page (slot_pos i) (slot_pos i + 4)) \<and>
         py_slice page' 0 free_offset = py_slice page 0 free_offset \<and>
         (page_wf page \<longrightarrow>
            (\<forall>i. 0 \<le> i \<and> i < slot_count \<longrightarrow>
               (\<exists>r. get_record_from_page page i = Inr r \<and> get_record_from_page page' i = Inr r)))"
proof -
  note h = insert_InrD [OF ins]
  have len: "length page = 4096" by (rule h(1))
  have len': "length page' = 4096" using h by (simp add: length_page_after)
  have sc: "slot_count = int (slot_count_of page)" and fo: "free_offset = int (free_offset_of page)"
    using ft by (simp_all add: read_footer_of [OF len])
  have b: "4 * slot_count_of page + free_offset_of page + length rcd + 4 \<le> 4092"
    using h(2) by (rule fits_bound)
  have slots: "py_slice page' (slot_pos i) (slot_pos i + 4) = py_slice page (slot_pos i) (slot_pos i + 4)"
    if "0 \<le> i" "i < slot_count" for i
  proof -
    define j where "j = nat i"
    have j: "i = int j" "j < slot_count_of page"
      using that sc by (simp_all add: j_def)
    have p: "slot_pos (int j) = int (4088 - 4 * j)" "int (4088 - 4 * j) + 4 = int (4092 - 4 * j)"
      using j b by (simp_all add: slot_pos_def PAGE_SIZE_def FOOTER_SIZE_def SLOT_ENTRY_SIZE_def)
    have "take 4 (drop (4088 - 4 * j) page') = take 4 (drop (4088 - 4 * j) page)"
    proof (rule take_drop_cong)
      show "length page' = length page" using len len' by simp
    next
      fix k
      assume "4088 - 4 * j \<le> k" "k < 4088 - 4 * j + 4"
      then show "page' ! k = page ! k"
        unfolding h(3) using j b len h(2) by (intro nth_page_after_old) auto
    qed
    moreover have "4092 - 4 * j - (4088 - 4 * j) = 4" using j b by simp
    ultimately show ?thesis
      unfolding j(1) p by (simp only: py_slice_nat)
  qed
  have region: "py_slice page' 0 free_offset = py_slice page 0 free_offset"
  proof -
    have "take (free_offset_of page) (drop 0 page') = take (free_offset_of page) (drop 0 page)"
    proof (rule take_drop_cong)
      show "length page' = length page" using len len' by simp
    next
      fix k
      assume "k < 0 + free_offset_of page"
      then show "page' ! k = page ! k"
        unfolding h(3) using b len h(2) by (intro nth_page_after_old) auto
    qed
    then show ?thesis
      using py_slice_nat [of page' 0 "free_offset_of page"] py_slice_nat [of page 0 "free_offset_of page"]
      by (simp add: fo)
  qed
  have recs: "\<exists>r. get_record_from_page page i = Inr r \<and> get_record_from_page page' i = Inr r"
    if wf: "page_wf page" and i: "0 \<le> i" "i < slot_count" for i
  proof -
    define j where "j = nat i"
    have j: "i = int j" "j < slot_count_of page"
      using i sc by (simp_all add: j_def)
    have j': "j \<le> 1022" using j b by simp
    have "get_record_from_page page (int j) = Inr (record_at page j)"
      using len j(2) j' by (rule get_record_ok)
    moreover have "get_record_from_page page' (int j) = Inr (record_at page' j)"
      using len' j' j(2) h by (intro get_record_ok) (simp_all add: slot_count_page_after)
    moreover have "record_at page' j = record_at page j"
      unfolding h(3) using len h(2) j(2) wf by (intro old_record_at) (simp_all add: page_wf_def)
    ultimately show ?thesis by (simp add: j(1))
  qed
  show ?thesis using slots region recs by blast
qed

theorem insert_preserves_stored_data_witness:
  "insert_record_into_page demo_page [9] = Inr (page_after demo_page [9], 1) \<and>
   read_footer demo_page = Inr (1, 3) \<and>
   page_wf demo_page \<and>
   get_record_from_page demo_page 0 = Inr [7, 7, 7] \<and>
   get_record_from_page (page_after demo_page [9]) 0 = Inr [7, 7, 7]"
proof -
  have i: "insert_record_into_page demo_page [9] = Inr (page_after demo_page [9], 1)"
    by (simp add: insert_cases fits_def demo_len demo_sc demo_fo
        slot_count_of_def [symmetric] free_offset_of_def [symmetric])
  have f: "read_footer demo_page = Inr (1, 3)"
    by (simp add: read_footer_of demo_len demo_sc demo_fo)
  have w: "page_wf demo_page"
    by (simp add: page_wf_def demo_len demo_sc demo_fo)
      (simp add: slot_off_def slot_len_def u16_at_def demo_page_def nth_append)
  have g: "get_record_from_page demo_page (int 0) = Inr (record_at demo_page 0)"
    by (rule get_record_ok) (simp_all add: demo_len demo_sc)
  have g': "record_at demo_page 0 = [7, 7, 7]"
    by (simp add: record_at_def slot_off_def slot_len_def u16_at_def demo_page_def nth_append)
  show ?thesis
    using insert_preserves_stored_data [OF i f] w i f g g' by auto
qed

text \<open>
  The claim as stated, for every page, fails on a page whose slot 0 points at byte 0
  while its free offset is still 0: the insert writes the new record over the bytes
  that slot 0 names.
\<close>

theorem insert_preserves_stored_data_counterexample:
  "insert_record_into_page corrupt_page [1] = Inr (corrupt_page_after, 1) \<and>
   get_record_from_page corrupt_page 0 = Inr [0] \<and>
   get_record_from_page corrupt_page_after 0 = Inr [1]"
proof -
  have "fits corrupt_page [1]"
    using cp_sc cp_fo by (simp add: fits_def slot_count_of_def free_offset_of_def)
  then have a: "insert_record_into_page corrupt_page [1] = Inr (corrupt_page_after, 1)"
    by (simp add: insert_cases cp_len cp_after cp_sc)
  have b: "get_record_from_page corrupt_page (int 0) = Inr (record_at corrupt_page 0)"
    by (rule get_record_ok) (simp_all add: cp_len cp_sc)
  have b': "record_at corrupt_page 0 = [0]"
    by (simp add: record_at_def slot_off_def slot_len_def u16_at_def corrupt_page_def nth_append)
  have c: "get_record_from_page corrupt_page_after (int 0) = Inr (record_at corrupt_page_after 0)"
    by (rule get_record_ok)
      (simp_all add: cpa_len slot_count_of_def u16_at_def corrupt_page_after_def nth_append)
  have c': "record_at corrupt_page_after 0 = [1]"
    by (simp add: record_at_def slot_off_def slot_len_def u16_at_def corrupt_page_after_def nth_append)
  show ?thesis using a b b' c c' by simp
qed

lemma read_slot_ok:
  assumes len: "length page = 4096" and i: "i < sc" "i \<le> 1022"
  shows "read_slot page (int i) (int sc) = Inr (int (slot_off page i), int (slot_len page i))"
proof -
  have p: "slot_pos (int i) = int (4088 - 4 * i)"
    using i by (simp add: slot_pos_def PAGE_SIZE_def FOOTER_SIZE_def SLOT_ENTRY_SIZE_def)
  have q: "int (4088 - 4 * i) + 2 = int (4090 - 4 * i)"
    "int (4088 - 4 * i) + 4 = int (4090 - 4 * i) + 2"
    using i by simp_all
  have a: "unpack_uint16 (py_slice page (int (4088 - 4 * i)) (int (4088 - 4 * i) + 2))
           = Inr (int (slot_off page i))"
    unfolding slot_off_def using len i by (intro unpack_at) simp
  have b: "unpack_uint16 (py_slice page (int (4090 - 4 * i)) (int (4090 - 4 * i) + 2))
           = Inr (int (slot_len page i))"
    unfolding slot_len_def using len i by (intro unpack_at) simp
  have a': "unpack_uint16 (py_slice page (int (4088 - 4 * i)) (int (4090 - 4 * i)))
           = Inr (int (slot_off page i))"
    using a by (simp only: q)
  show ?thesis
    unfolding read_slot_def Let_def p using i(1)
    by (simp only: q a' b sum.case) simp
qed

lemma insert_steps:
  assumes len: "length page = 4096" and fit: "fits page rcd"
  shows "\<exists>pg2.
           write_slot (py_slice_assign page (int (free_offset_of page))
                         (int (free_offset_of page) + int (length rcd)) rcd)
             (int (slot_count_of page)) (int (free_offset_of page)) (int (length rcd)) = Inr pg2 \<and>
           write_footer pg2 (int (slot_count_of page) + 1)
             (int (free_offset_of page) + int (length rcd)) = Inr (page_after page rcd)"
proof -
  define sc where "sc = slot_count_of page"
  define fo where "fo = free_offset_of page"
  define n where "n = length rcd"
  have b: "4 * sc + fo + n + 4 \<le> 4092"
    using fits_bound [OF fit] by (simp add: sc_def fo_def n_def)
  define pg1 where "pg1 = put page fo rcd"
  have l1: "length pg1 = 4096"
    using b len by (simp add: pg1_def length_put n_def)
  have s1: "py_slice_assign page (int fo) (int fo + int (length rcd)) rcd = pg1"
    by (simp add: pg1_def py_slice_assign_put)
  define pg2 where "pg2 = put (put pg1 (4088 - 4 * sc) (u16_bytes fo)) (4090 - 4 * sc) (u16_bytes n)"
  have l2: "length pg2 = 4096"
    using b l1 by (simp add: pg2_def length_put length_u16_bytes)
  have s2: "write_slot pg1 (int sc) (int fo) (int n) = Inr pg2"
    unfolding pg2_def using b by (intro write_slot_ok) simp_all
  have s3: "write_footer pg2 (int (Suc sc)) (int (fo + n))
            = Inr (put (put pg2 4092 (u16_bytes (Suc sc))) 4094 (u16_bytes (fo + n)))"
    using b l2 by (intro write_footer_ok) simp_all
  have s3': "write_footer pg2 (int sc + 1) (int fo + int n)
            = Inr (put (put pg2 4092 (u16_bytes (Suc sc))) 4094 (u16_bytes (fo + n)))"
    using s3 by (simp add: add.commute)
  have fin: "put (put pg2 4092 (u16_bytes (Suc sc))) 4094 (u16_bytes (fo + n)) = page_after page rcd"
    by (simp add: page_after_eq pg2_def pg1_def sc_def fo_def n_def)
  show ?thesis
    using s1 s2 s3' fin unfolding sc_def fo_def n_def by auto
qed

lemma insert_heap_ok:
  assumes r: "r < length h" and len: "length (h ! r) = 4096" and fit: "fits (h ! r) rcd"
  shows "insert_record_into_page_heap h r rcd
         = (Inr (Suc (length h), int (slot_count_of (h ! r))),
            h @ [page_after (h ! r) rcd, page_after (h ! r) rcd])"
proof -
  define page where "page = h ! r"
  from insert_steps [OF len fit] obtain pg2 where
    s2: "write_slot (py_slice_assign page (int (free_offset_of page))
                         (int (free_offset_of page) + int (length rcd)) rcd)
             (int (slot_count_of page)) (int (free_offset_of page)) (int (length rcd)) = Inr pg2" and
    s3: "write_footer pg2 (int (slot_count_of page) + 1)
             (int (free_offset_of page) + int (length rcd)) = Inr (page_after page rcd)"
    unfolding page_def by blast
  have nolt: "\<not> (4092 - 4 * int (slot_count_of page) - int (free_offset_of page)
                 < int (length rcd) + 4)"
    using fits_bound [OF fit] by (simp add: page_def)
  have len': "length page = 4096" using len by (simp add: page_def)
  show ?thesis
    unfolding insert_record_into_page_heap_def page_def [symmetric]
    using nolt
    by (simp add: read_footer_of [OF len'] free_space_of [OF len'] SLOT_ENTRY_SIZE_def Let_def
        s2 s3)
qed

lemma insert_heap_full:
  assumes len: "length (h ! r) = 4096" and nofit: "\<not> fits (h ! r) rcd"
  shows "insert_record_into_page_heap h r rcd
         = (Inl (ValueError (str_of ''Not enough space in page'')), h)"
proof -
  have "4092 - 4 * int (slot_count_of (h ! r)) - int (free_offset_of (h ! r))
        < int (length rcd) + 4"
    using nofit by (simp add: fits_def slot_count_of_def free_offset_of_def)
  then show ?thesis
    unfolding insert_record_into_page_heap_def
    by (simp add: read_footer_of [OF len] free_space_of [OF len] SLOT_ENTRY_SIZE_def Let_def)
qed

lemma get_new_record:
  assumes "length page = 4096" "fits page rcd"
  shows "get_record_from_page (page_after page rcd) (int (slot_count_of page)) = Inr rcd"
proof -
  have bnd: "4 * slot_count_of page + free_offset_of page + length rcd + 4 \<le> 4092"
    using assms(2) by (rule fits_bound)
  have "get_record_from_page (page_after page rcd) (int (slot_count_of page))
        = Inr (record_at (page_after page rcd) (slot_count_of page))"
    using assms bnd
    by (intro get_record_ok) (simp_all add: length_page_after slot_count_page_after)
  then show ?thesis
    using assms by (simp add: new_record_at)
qed

subsection \<open>Capacity check of a page insert\<close>

text \<open>
  Claim C4. For a page of 4096 bytes and any record, \<open>insert_record_into_page\<close> raises the
  capacity error exactly when \<open>free_space_in_page\<close> is below the record length plus 4.
  On failure nothing is allocated and no object is written. On success the result is a
  new page image and the slot index, which is the slot count read from the footer of
  the input. The new image has the footer \<open>(slot_count + 1, free_offset + length)\<close>,
  its slot \<open>slot_count\<close> is \<open>(free_offset, length)\<close>, the record is read back from that slot,
  and every byte outside the record's place, the new slot entry and the footer is the
  byte of the input page. On objects, the input page and every object that existed
  before the call are unchanged afterwards, and the result is a fresh object holding
  the new image.
\<close>

theorem insert_record_into_page_capacity:
  assumes "length page = 4096"
  shows "\<exists>free. free_space_in_page page = Inr free \<and>
      (if free < int (length rcd) + 4
       then insert_record_into_page page rcd
              = Inl (ValueError (str_of ''Not enough space in page'')) \<and>
            (\<forall>h r. r < length h \<and> h ! r = page \<longrightarrow>
               insert_record_into_page_heap h r rcd
                 = (Inl (ValueError (str_of ''Not enough space in page'')), h))
       else \<exists>page' slot_count free_offset.
              insert_record_into_page page rcd = Inr (page', slot_count) \<and>
              read_footer page = Inr (slot_count, free_offset) \<and>
              length page' = 4096 \<and>
              read_footer page' = Inr (slot_count + 1, free_offset + int (length rcd)) \<and>
              read_slot page' slot_count (slot_count + 1) = Inr (free_offset, int (length rcd)) \<and>
              get_record_from_page page' slot_count = Inr rcd \<and>
              (\<forall>k. k < 4092 \<and>
                   \<not> (free_offset \<le> int k \<and> int k < free_offset + int (length rcd)) \<and>
                   \<not> (slot_pos slot_count \<le> int k \<and> int k < slot_pos slot_count + 4)
                   \<longrightarrow> page' ! k = page ! k) \<and>
              (\<forall>h r. r < length h \<and> h ! r = page \<longrightarrow>
                 (\<exists>h'. insert_record_into_page_heap h r rcd
                         = (Inr (length h + 1, slot_count), h') \<and>
                       length h' = length h + 2 \<and>
                       (\<forall>a < length h. h' ! a = h ! a) \<and>
                       h' ! (length h + 1) = page')))"
proof (cases "fits page rcd")
  case False
  have f: "free_space_in_page page
           = Inr (4092 - 4 * int (slot_count_of page) - int (free_offset_of page))"
    using assms by (rule free_space_of)
  have lt: "4092 - 4 * int (slot_count_of page) - int (free_offset_of page) < int (length rcd) + 4"
    using False by (simp add: fits_def slot_count_of_def free_offset_of_def)
  have a: "insert_record_into_page page rcd = Inl (ValueError (str_of ''Not enough space in page''))"
    using assms False by (simp add: insert_cases)
  have b: "insert_record_into_page_heap h r rcd
           = (Inl (ValueError (str_of ''Not enough space in page'')), h)"
    if "r < length h \<and> h ! r = page" for h r
    using that assms False by (intro insert_heap_full) simp_all
  show ?thesis
    using f lt a b by simp
next
  case True
  define sc where "sc = slot_count_of page"
  define fo where "fo = free_offset_of page"
  define page' where "page' = page_after page rcd"
  have bnd: "4 * sc + fo + length rcd + 4 \<le> 4092"
    using fits_bound [OF True] by (simp add: sc_def fo_def)
  have f: "free_space_in_page page = Inr (4092 - 4 * int sc - int fo)"
    using assms by (simp add: free_space_of sc_def fo_def)
  have ge: "\<not> (4092 - 4 * int sc - int fo < int (length rcd) + 4)"
    using bnd by simp
  have l': "length page' = 4096"
    using assms True by (simp add: page'_def length_page_after)
  have sc': "slot_count_of page' = Suc sc"
    using assms True by (simp add: page'_def sc_def slot_count_page_after)
  have fo': "free_offset_of page' = fo + length rcd"
    using assms True by (simp add: page'_def fo_def free_offset_page_after)
  have c1: "insert_record_into_page page rcd = Inr (page', int sc)"
    using assms True by (simp add: insert_cases page'_def sc_def)
  have c2: "read_footer page = Inr (int sc, int fo)"
    using assms by (simp add: read_footer_of sc_def fo_def)
  have c3: "read_footer page' = Inr (int sc + 1, int fo + int (length rcd))"
    using l' by (simp add: read_footer_of sc' fo')
  have "read_slot page' (int sc) (int (Suc sc))
        = Inr (int (slot_off page' sc), int (slot_len page' sc))"
    using l' bnd by (intro read_slot_ok) simp_all
  then have c4: "read_slot page' (int sc) (int sc + 1) = Inr (int fo, int (length rcd))"
    using assms True
    by (simp add: page'_def sc_def fo_def new_slot_off new_slot_len add.commute)
  have "get_record_from_page page' (int sc) = Inr (record_at page' sc)"
    using l' bnd by (intro get_record_ok) (simp_all add: sc')
  then have c5: "get_record_from_page page' (int sc) = Inr rcd"
    using assms True by (simp add: page'_def sc_def new_record_at)
  have sp: "slot_pos (int sc) = int (4088 - 4 * sc)"
    using bnd by (simp add: slot_pos_def PAGE_SIZE_def FOOTER_SIZE_def SLOT_ENTRY_SIZE_def)
  have c6: "page' ! k = page ! k"
    if "k < 4092 \<and>
        \<not> (int fo \<le> int k \<and> int k < int fo + int (length rcd)) \<and>
        \<not> (slot_pos (int sc) \<le> int k \<and> int k < slot_pos (int sc) + 4)" for k
  proof -
    have "k < fo \<or> (fo + length rcd \<le> k \<and> k < 4088 - 4 * sc) \<or> 4092 - 4 * sc \<le> k"
      using that bnd unfolding sp by auto
    then show ?thesis
      unfolding page'_def using assms True that
      by (intro nth_page_after_old) (simp_all add: sc_def fo_def)
  qed
  have c7: "\<exists>h'. insert_record_into_page_heap h r rcd = (Inr (length h + 1, int sc), h') \<and>
                 length h' = length h + 2 \<and>
                 (\<forall>a < length h. h' ! a = h ! a) \<and>
                 h' ! (length h + 1) = page'"
    if "r < length h \<and> h ! r = page" for h r
  proof -
    have "insert_record_into_page_heap h r rcd
          = (Inr (Suc (length h), int (slot_count_of (h ! r))),
             h @ [page_after (h ! r) rcd, page_after (h ! r) rcd])"
      using that assms True by (intro insert_heap_ok) simp_all
    then show ?thesis
      using that by (simp add: sc_def page'_def nth_append)
  qed
  have "\<exists>page' slot_count free_offset.
              insert_record_into_page page rcd = Inr (page', slot_count) \<and>
              read_footer page = Inr (slot_count, free_offset) \<and>
              length page' = 4096 \<and>
              read_footer page' = Inr (slot_count + 1, free_offset + int (length rcd)) \<and>
              read_slot page' slot_count (slot_count + 1) = Inr (free_offset, int (length rcd)) \<and>
              get_record_from_page page' slot_count = Inr rcd \<and>
              (\<forall>k. k < 4092 \<and>
                   \<not> (free_offset \<le> int k \<and> int k < free_offset + int (length rcd)) \<and>
                   \<not> (slot_pos slot_count \<le> int k \<and> int k < slot_pos slot_count + 4)
                   \<longrightarrow> page' ! k = page ! k) \<and>
              (\<forall>h r. r < length h \<and> h ! r = page \<longrightarrow>
                 (\<exists>h'. insert_record_into_page_heap h r rcd
                         = (Inr (length h + 1, slot_count), h') \<and>
                       length h' = length h + 2 \<and>
                       (\<forall>a < length h. h' ! a = h ! a) \<and>
                       h' ! (length h + 1) = page'))"
    using c1 c2 l' c3 c4 c5 c6 c7
    by (intro exI [of _ page'] exI [of _ "int sc"] exI [of _ "int fo"] conjI allI impI)
  then show ?thesis
    using f ge by simp
qed

theorem insert_record_into_page_capacity_witness:
  "length (replicate 4096 (0::byte)) = 4096 \<and>
   free_space_in_page (replicate 4096 0) = Inr 4092 \<and>
   insert_record_into_page (replicate 4096 0) [7, 7, 7] = Inr (demo_page, 0) \<and>
   read_footer demo_page = Inr (1, 3) \<and>
   read_slot demo_page 0 1 = Inr (0, 3) \<and>
   get_record_from_page demo_page 0 = Inr [7, 7, 7] \<and>
   (\<exists>h'. insert_record_into_page_heap [replicate 4096 0] 0 [7, 7, 7] = (Inr (2, 0), h') \<and>
         length h' = 3 \<and> h' ! 0 = replicate 4096 0 \<and> h' ! 2 = demo_page) \<and>
   insert_record_into_page (replicate 4096 0) (replicate 4089 7)
     = Inl (ValueError (str_of ''Not enough space in page'')) \<and>
   insert_record_into_page_heap [replicate 4096 0] 0 (replicate 4089 7)
     = (Inl (ValueError (str_of ''Not enough space in page'')), [replicate 4096 0])"
proof -
  have l: "length (replicate 4096 (0::byte)) = 4096" by simp
  have f: "free_space_in_page (replicate 4096 0) = Inr 4092"
    by (simp add: free_space_ok u16_at_def)
  have i: "insert_record_into_page (replicate 4096 0) [7, 7, 7] = Inr (demo_page, 0)"
    by (simp add: insert_cases fits_def slot_count_of_def u16_at_def zero_page_after)
  have rf: "read_footer (replicate 4096 0) = Inr (0, 0)"
    by (simp add: read_footer_ok u16_at_def)
  have ok: "\<exists>page' slot_count free_offset.
              insert_record_into_page (replicate 4096 0) [7, 7, 7] = Inr (page', slot_count) \<and>
              read_footer (replicate 4096 0) = Inr (slot_count, free_offset) \<and>
              length page' = 4096 \<and>
              read_footer page' = Inr (slot_count + 1, free_offset + int (length [7, 7, 7 :: byte])) \<and>
              read_slot page' slot_count (slot_count + 1)
                = Inr (free_offset, int (length [7, 7, 7 :: byte])) \<and>
              get_record_from_page page' slot_count = Inr [7, 7, 7] \<and>
              (\<forall>k. k < 4092 \<and>
                   \<not> (free_offset \<le> int k \<and> int k < free_offset + int (length [7, 7, 7 :: byte])) \<and>
                   \<not> (slot_pos slot_count \<le> int k \<and> int k < slot_pos slot_count + 4)
                   \<longrightarrow> page' ! k = replicate 4096 0 ! k) \<and>
              (\<forall>h r. r < length h \<and> h ! r = replicate 4096 0 \<longrightarrow>
                 (\<exists>h'. insert_record_into_page_heap h r [7, 7, 7]
                         = (Inr (length h + 1, slot_count), h') \<and>
                       length h' = length h + 2 \<and>
                       (\<forall>a < length h. h' ! a = h ! a) \<and>
                       h' ! (length h + 1) = page'))"
    using insert_record_into_page_capacity [OF l, of "[7, 7, 7]"] by (simp add: f)
  then obtain page' slot_count free_offset where
    a1: "insert_record_into_page (replicate 4096 0) [7, 7, 7] = Inr (page', slot_count)" and
    a2: "read_footer (replicate 4096 0) = Inr (slot_count, free_offset)" and
    a3: "read_footer page' = Inr (slot_count + 1, free_offset + int (length [7, 7, 7 :: byte]))" and
    a4: "read_slot page' slot_count (slot_count + 1)
           = Inr (free_offset, int (length [7, 7, 7 :: byte]))" and
    a5: "get_record_from_page page' slot_count = Inr [7, 7, 7]" and
    a6: "\<forall>h r. r < length h \<and> h ! r = replicate 4096 0 \<longrightarrow>
                 (\<exists>h'. insert_record_into_page_heap h r [7, 7, 7]
                         = (Inr (length h + 1, slot_count), h') \<and>
                       length h' = length h + 2 \<and>
                       (\<forall>a < length h. h' ! a = h ! a) \<and>
                       h' ! (length h + 1) = page')"
    by blast
  have e: "page' = demo_page" "slot_count = 0" "free_offset = 0"
    using a1 a2 i rf by simp_all
  have b3: "read_footer demo_page = Inr (1, 3)" using a3 e by simp
  have b4: "read_slot demo_page 0 1 = Inr (0, 3)" using a4 e by simp
  have b5: "get_record_from_page demo_page 0 = Inr [7, 7, 7]" using a5 e by simp
  have "\<exists>h'. insert_record_into_page_heap [replicate 4096 0] 0 [7, 7, 7]
                         = (Inr (length [replicate 4096 (0::byte)] + 1, slot_count), h') \<and>
                       length h' = length [replicate 4096 (0::byte)] + 2 \<and>
                       (\<forall>a < length [replicate 4096 (0::byte)].
                           h' ! a = [replicate 4096 0] ! a) \<and>
                       h' ! (length [replicate 4096 (0::byte)] + 1) = page'"
    using a6 [rule_format, of 0 "[replicate 4096 0]"] by simp
  then have b6: "\<exists>h'. insert_record_into_page_heap [replicate 4096 0] 0 [7, 7, 7] = (Inr (2, 0), h') \<and>
         length h' = 3 \<and> h' ! 0 = replicate 4096 0 \<and> h' ! 2 = demo_page"
    using e by (auto simp: numeral_2_eq_2 numeral_3_eq_3)
  have fail: "insert_record_into_page (replicate 4096 0) (replicate 4089 7)
                = Inl (ValueError (str_of ''Not enough space in page'')) \<and>
              (\<forall>h r. r < length h \<and> h ! r = replicate 4096 0 \<longrightarrow>
                 insert_record_into_page_heap h r (replicate 4089 7)
                   = (Inl (ValueError (str_of ''Not enough space in page'')), h))"
    using insert_record_into_page_capacity [OF l, of "replicate 4089 7"] by (simp add: f)
  then have b7: "insert_record_into_page (replicate 4096 0) (replicate 4089 7)
                = Inl (ValueError (str_of ''Not enough space in page''))"
    and b8: "insert_record_into_page_heap [replicate 4096 0] 0 (replicate 4089 7)
                = (Inl (ValueError (str_of ''Not enough space in page'')), [replicate 4096 0])"
    by simp_all
  show ?thesis
    using l f i b3 b4 b5 b6 b7 b8 by (intro conjI)
qed

lemma has_room_fits: "length page = 4096 \<Longrightarrow> has_room page rcd = fits page rcd"
  by (auto simp: has_room_def free_space_of fits_def slot_count_of_def free_offset_of_def)

lemma page_bound: "p < num_pages_of content \<Longrightarrow> 4096 * p + 4096 \<le> length content"
proof -
  assume h: "p < num_pages_of content"
  have "4096 * (length content div 4096) \<le> length content" by simp
  with h show ?thesis by (simp add: num_pages_of_def)
qed

lemma length_page_of: "p < num_pages_of content \<Longrightarrow> length (page_of content p) = 4096"
  using page_bound [of p content] by (simp add: page_of_def)

lemma py_range_int: "py_range (int n) = map int [0..<n]"
  by (simp add: py_range_def)

lemma read_page_ok:
  assumes "fs fname = Some content" "p < num_pages_of content"
  shows "read_page fs fname (int p) = Inr (page_of content p)"
proof -
  have "nat (int p * 4096) = 4096 * p" by (simp add: nat_mult_distrib)
  then show ?thesis
    using assms length_page_of [OF assms(2)]
    by (simp add: read_page_def PAGE_SIZE_def Let_def page_of_def)
qed

lemma file_write_at_put:
  "pos + length data \<le> length content \<Longrightarrow> file_write_at content pos data = put content pos data"
  by (simp add: file_write_at_def put_def)

lemma write_page_ok:
  assumes "fs fname = Some content" "p < num_pages_of content" "length pg = 4096"
  shows "write_page fs fname (int p) pg = (Inr (), fs(fname \<mapsto> put content (4096 * p) pg))"
proof -
  have "nat (int p * 4096) = 4096 * p" by (simp add: nat_mult_distrib)
  moreover have "file_write_at content (4096 * p) pg = put content (4096 * p) pg"
    using page_bound [OF assms(2)] assms(3) by (intro file_write_at_put) simp
  ultimately show ?thesis
    using assms by (simp add: write_page_def PAGE_SIZE_def)
qed

lemma loop_step_full:
  assumes "fs fname = Some content" "k < num_pages_of content" "\<not> fits (page_of content k) rcd"
  shows "insert_record_loop fs fname rcd (int k # ps) = insert_record_loop fs fname rcd ps"
  using assms
  by (simp add: read_page_ok insert_cases length_page_of is_ValueError_def)

lemma loop_step_fit:
  assumes "fs fname = Some content" "k < num_pages_of content" "fits (page_of content k) rcd"
  shows "insert_record_loop fs fname rcd (int k # ps)
         = (Inr (Some (int k, int (slot_count_of (page_of content k)))),
            fs(fname \<mapsto> put content (4096 * k) (page_after (page_of content k) rcd)))"
  using assms
  by (simp add: read_page_ok insert_cases length_page_of write_page_ok length_page_after)

lemma loop_none:
  assumes "fs fname = Some content" "n \<le> num_pages_of content"
    and "\<And>q. k \<le> q \<Longrightarrow> q < n \<Longrightarrow> \<not> fits (page_of content q) rcd"
  shows "insert_record_loop fs fname rcd (map int [k..<n]) = (Inr None, fs)"
  using assms
proof (induction "n - k" arbitrary: k)
  case 0
  then show ?case by simp
next
  case (Suc d)
  then have kn: "k < n" by simp
  then have "insert_record_loop fs fname rcd (map int [k..<n])
             = insert_record_loop fs fname rcd (map int [Suc k..<n])"
    using Suc.prems by (simp add: upt_conv_Cons loop_step_full del: insert_record_loop.simps)
  also have "\<dots> = (Inr None, fs)"
    using Suc by (intro Suc.hyps) auto
  finally show ?case .
qed

lemma loop_first_fit:
  assumes "fs fname = Some content" "n \<le> num_pages_of content"
    and "k \<le> p" "p < n" "fits (page_of content p) rcd"
    and "\<And>q. k \<le> q \<Longrightarrow> q < p \<Longrightarrow> \<not> fits (page_of content q) rcd"
  shows "insert_record_loop fs fname rcd (map int [k..<n])
         = (Inr (Some (int p, int (slot_count_of (page_of content p)))),
            fs(fname \<mapsto> put content (4096 * p) (page_after (page_of content p) rcd)))"
  using assms
proof (induction "p - k" arbitrary: k)
  case 0
  then have k: "k = p" by simp
  have u: "[p..<n] = p # [Suc p..<n]"
    using 0 by (simp add: upt_conv_Cons)
  show ?case
    unfolding k u list.map using 0 by (intro loop_step_fit) auto
next
  case (Suc d)
  then have kp: "k < p" by simp
  then have "insert_record_loop fs fname rcd (map int [k..<n])
             = insert_record_loop fs fname rcd (map int [Suc k..<n])"
    using Suc.prems by (simp add: upt_conv_Cons loop_step_full del: insert_record_loop.simps)
  also have "\<dots> = (Inr (Some (int p, int (slot_count_of (page_of content p)))),
            fs(fname \<mapsto> put content (4096 * p) (page_after (page_of content p) rcd)))"
    using Suc by (intro Suc.hyps) auto
  finally show ?case .
qed

lemma file_after_create_nonempty: "file_after_create fs fname \<noteq> []"
  by (auto simp: file_after_create_def split: option.splits)

lemma insert_record_unfold:
  "insert_record fs fname rcd =
     (let content = file_after_create fs fname; fs1 = fs(fname \<mapsto> content)
      in case insert_record_loop fs1 fname rcd (map int [0..<num_pages_of content]) of
           (Inl e, fs2) \<Rightarrow> (Inl e, fs2)
         | (Inr (Some (p, slot)), fs2) \<Rightarrow> (Inr (p, slot), fs2)
         | (Inr None, fs2) \<Rightarrow>
             (case insert_record_into_page (replicate 4096 0) rcd of
                Inl e \<Rightarrow> (Inl e, fs2)
              | Inr (pg_bytes, slot) \<Rightarrow>
                  (case append_page fs2 fname pg_bytes of
                     (Inl e, fs3) \<Rightarrow> (Inl e, fs3)
                   | (Inr u, fs3) \<Rightarrow> (Inr (int (num_pages_of content), slot), fs3))))"
proof -
  have d: "int (length c) div 4096 = int (length c div 4096)" for c :: bytes
    using zdiv_int [of "length c" 4096] by simp
  show ?thesis
  proof (cases "fs fname")
    case None
    then show ?thesis
      by (simp add: insert_record_def path_exists_def create_heap_file_def
          initialize_empty_page_eq getsize_def file_after_create_def PAGE_SIZE_def
          py_range_def num_pages_of_def Let_def del: insert_record_loop.simps
          split: prod.splits sum.splits option.splits)
  next
    case (Some c)
    then have e: "fs(fname \<mapsto> c) = fs" by (simp add: fun_upd_idem)
    show ?thesis
      using Some e
      by (cases "c = []")
        (simp_all add: insert_record_def path_exists_def create_heap_file_def
          initialize_empty_page_eq getsize_def file_after_create_def PAGE_SIZE_def
          py_range_def num_pages_of_def Let_def d del: insert_record_loop.simps
          split: prod.splits sum.splits option.splits)
  qed
qed

lemma fits_empty: "fits (replicate 4096 0) rcd \<longleftrightarrow> length rcd \<le> 4088"
  by (auto simp: fits_def u16_at_def)

lemma slot_count_empty: "slot_count_of (replicate 4096 0) = 0"
  by (simp add: slot_count_of_def u16_at_def)

lemma not_fits_oversize: "4088 < length rcd \<Longrightarrow> \<not> fits page rcd"
  by (simp add: fits_def)

lemma insert_record_fit:
  assumes "p < num_pages_of (file_after_create fs fname)"
    and "fits (page_of (file_after_create fs fname) p) rcd"
    and "\<And>q. q < p \<Longrightarrow> \<not> fits (page_of (file_after_create fs fname) q) rcd"
  shows "insert_record fs fname rcd
         = (Inr (int p, int (slot_count_of (page_of (file_after_create fs fname) p))),
            fs(fname \<mapsto> put (file_after_create fs fname) (4096 * p)
                 (page_after (page_of (file_after_create fs fname) p) rcd)))"
proof -
  define content where "content = file_after_create fs fname"
  have "insert_record_loop (fs(fname \<mapsto> content)) fname rcd (map int [0..<num_pages_of content])
        = (Inr (Some (int p, int (slot_count_of (page_of content p)))),
           (fs(fname \<mapsto> content))(fname \<mapsto> put content (4096 * p) (page_after (page_of content p) rcd)))"
    using assms by (intro loop_first_fit [where content = content]) (simp_all add: content_def)
  then show ?thesis
    by (simp add: insert_record_unfold content_def [symmetric] Let_def)
qed

lemma insert_record_append:
  assumes "\<And>q. q < num_pages_of (file_after_create fs fname)
              \<Longrightarrow> \<not> fits (page_of (file_after_create fs fname) q) rcd"
    and "length rcd \<le> 4088"
  shows "insert_record fs fname rcd
         = (Inr (int (num_pages_of (file_after_create fs fname)), 0),
            fs(fname \<mapsto> file_after_create fs fname @ page_after (replicate 4096 0) rcd))"
proof -
  define content where "content = file_after_create fs fname"
  have "insert_record_loop (fs(fname \<mapsto> content)) fname rcd (map int [0..<num_pages_of content])
        = (Inr None, fs(fname \<mapsto> content))"
    using assms by (intro loop_none [where content = content]) (simp_all add: content_def)
  moreover have "length (page_after (replicate 4096 0) rcd) = 4096"
    using assms(2) by (simp add: length_page_after fits_empty)
  ultimately show ?thesis
    using assms(2)
    by (simp add: insert_record_unfold content_def [symmetric] Let_def insert_cases fits_empty
        slot_count_empty append_page_def PAGE_SIZE_def)
qed

lemma insert_record_oversize:
  assumes "4088 < length rcd"
  shows "insert_record fs fname rcd
         = (Inl (ValueError (str_of ''Not enough space in page'')),
            fs(fname \<mapsto> file_after_create fs fname))"
proof -
  define content where "content = file_after_create fs fname"
  have "insert_record_loop (fs(fname \<mapsto> content)) fname rcd (map int [0..<num_pages_of content])
        = (Inr None, fs(fname \<mapsto> content))"
    using assms by (intro loop_none [where content = content]) (simp_all add: not_fits_oversize)
  then show ?thesis
    using assms
    by (simp add: insert_record_unfold content_def [symmetric] Let_def insert_cases fits_empty)
qed

lemma insert_record_total:
  assumes "length rcd \<le> 4088"
  shows "\<exists>p slot fs'. insert_record fs fname rcd = (Inr (p, slot), fs')"
proof (cases "\<exists>p. p < num_pages_of (file_after_create fs fname)
                   \<and> fits (page_of (file_after_create fs fname) p) rcd")
  case True
  then obtain p where "p < num_pages_of (file_after_create fs fname)
        \<and> fits (page_of (file_after_create fs fname) p) rcd"
      and "\<forall>q<p. \<not> (q < num_pages_of (file_after_create fs fname)
        \<and> fits (page_of (file_after_create fs fname) q) rcd)"
    using exists_least_iff [of "\<lambda>p. p < num_pages_of (file_after_create fs fname)
        \<and> fits (page_of (file_after_create fs fname) p) rcd"] by blast
  then show ?thesis
    using insert_record_fit [of p fs fname rcd] by auto
next
  case False
  then show ?thesis
    using insert_record_append [of fs fname rcd] assms by auto
qed

lemma full_len: "length full_page = 4096" by (simp add: full_page_def)

lemma full_sc: "slot_count_of full_page = 1"
  by (simp add: full_page_def slot_count_of_def u16_at_def nth_append)

lemma full_fo: "free_offset_of full_page = 4088"
  by (simp add: full_page_def free_offset_of_def u16_at_def nth_append)

lemma two_page_content: "file_after_create two_page_fs heap_name = full_page @ demo_page"
proof -
  have "full_page @ demo_page \<noteq> []" using full_len by auto
  then show ?thesis by (simp add: file_after_create_def two_page_fs_def)
qed

lemma two_page_num: "num_pages_of (full_page @ pg) = Suc (num_pages_of pg)"
  by (simp add: num_pages_of_def full_len)

lemma two_page_0: "page_of (full_page @ pg) 0 = full_page"
  by (simp add: page_of_def full_len)

lemma two_page_1: "length pg = 4096 \<Longrightarrow> page_of (full_page @ pg) 1 = pg"
  by (simp add: page_of_def full_len)

subsection \<open>First-fit placement\<close>

text \<open>
  Claim C3, as amended. \<open>insert_record\<close> works on the file as it is after the lazy
  creation (\<open>file_after_create\<close>). When page \<open>p\<close> is the first page whose free space
  suffices for the record (\<open>has_room\<close>: free space at least the record length plus 4),
  the record goes into page \<open>p\<close>, the result is \<open>p\<close> with the slot index of the page
  insert, only the bytes of page \<open>p\<close> are rewritten and the number of pages stays the
  same. When no page has room and the record is at most 4088 bytes long, a fresh page
  holding the record is appended and the result is the old page count with slot 0. A
  record longer than 4088 bytes fits no page: \<open>insert_record\<close> then raises the capacity
  error, appends nothing and leaves the file as the lazy creation made it.
\<close>

theorem insert_record_first_fit:
  "(p < num_pages_of (file_after_create fs fname) \<and>
    has_room (page_of (file_after_create fs fname) p) rcd \<and>
    (\<forall>q<p. \<not> has_room (page_of (file_after_create fs fname) q) rcd) \<longrightarrow>
      (\<exists>new_page slot.
         insert_record_into_page (page_of (file_after_create fs fname) p) rcd = Inr (new_page, slot) \<and>
         insert_record fs fname rcd =
           (Inr (int p, slot),
            fs(fname \<mapsto> file_write_at (file_after_create fs fname) (4096 * p) new_page)) \<and>
         num_pages_of (file_write_at (file_after_create fs fname) (4096 * p) new_page)
           = num_pages_of (file_after_create fs fname))) \<and>
   ((\<forall>q<num_pages_of (file_after_create fs fname).
        \<not> has_room (page_of (file_after_create fs fname) q) rcd) \<and> length rcd \<le> 4088 \<longrightarrow>
      (\<exists>empty new_page.
         initialize_empty_page = Inr empty \<and>
         insert_record_into_page empty rcd = Inr (new_page, 0) \<and>
         insert_record fs fname rcd =
           (Inr (int (num_pages_of (file_after_create fs fname)), 0),
            fs(fname \<mapsto> file_after_create fs fname @ new_page)))) \<and>
   (4088 < length rcd \<longrightarrow>
      insert_record fs fname rcd =
        (Inl (ValueError (str_of ''Not enough space in page'')),
         fs(fname \<mapsto> file_after_create fs fname)))"
proof (intro conjI impI)
  define content where "content = file_after_create fs fname"
  assume h: "p < num_pages_of (file_after_create fs fname) \<and>
    has_room (page_of (file_after_create fs fname) p) rcd \<and>
    (\<forall>q<p. \<not> has_room (page_of (file_after_create fs fname) q) rcd)"
  then have p: "p < num_pages_of content" by (simp add: content_def)
  have lp: "length (page_of content p) = 4096" using p by (rule length_page_of)
  have fit: "fits (page_of content p) rcd"
    using h lp by (simp add: content_def has_room_fits)
  have nofit: "\<not> fits (page_of content q) rcd" if "q < p" for q
  proof -
    have "q < num_pages_of content" using that p by simp
    then have "length (page_of content q) = 4096" by (rule length_page_of)
    then show ?thesis
      using h that has_room_fits [of "page_of content q" rcd] by (auto simp: content_def)
  qed
  have la: "length (page_after (page_of content p) rcd) = 4096"
    using lp fit by (rule length_page_after)
  have w: "file_write_at content (4096 * p) (page_after (page_of content p) rcd)
           = put content (4096 * p) (page_after (page_of content p) rcd)"
    using page_bound [OF p] la by (intro file_write_at_put) simp
  have n: "num_pages_of (put content (4096 * p) (page_after (page_of content p) rcd))
           = num_pages_of content"
    using page_bound [OF p] la by (simp add: num_pages_of_def length_put)
  have "insert_record fs fname rcd
        = (Inr (int p, int (slot_count_of (page_of content p))),
           fs(fname \<mapsto> put content (4096 * p) (page_after (page_of content p) rcd)))"
    unfolding content_def using p fit nofit
    by (intro insert_record_fit) (simp_all add: content_def)
  then show "\<exists>new_page slot.
         insert_record_into_page (page_of (file_after_create fs fname) p) rcd = Inr (new_page, slot) \<and>
         insert_record fs fname rcd =
           (Inr (int p, slot),
            fs(fname \<mapsto> file_write_at (file_after_create fs fname) (4096 * p) new_page)) \<and>
         num_pages_of (file_write_at (file_after_create fs fname) (4096 * p) new_page)
           = num_pages_of (file_after_create fs fname)"
    using lp fit w n by (simp add: content_def [symmetric] insert_cases)
next
  define content where "content = file_after_create fs fname"
  assume h: "(\<forall>q<num_pages_of (file_after_create fs fname).
        \<not> has_room (page_of (file_after_create fs fname) q) rcd) \<and> length rcd \<le> 4088"
  have nofit: "\<not> fits (page_of content q) rcd" if "q < num_pages_of content" for q
  proof -
    have "length (page_of content q) = 4096" using that by (rule length_page_of)
    then show ?thesis
      using h that has_room_fits [of "page_of content q" rcd] by (auto simp: content_def)
  qed
  have "insert_record fs fname rcd
        = (Inr (int (num_pages_of content), 0),
           fs(fname \<mapsto> content @ page_after (replicate 4096 0) rcd))"
    unfolding content_def using nofit h
    by (intro insert_record_append) (simp_all add: content_def)
  then show "\<exists>empty new_page.
         initialize_empty_page = Inr empty \<and>
         insert_record_into_page empty rcd = Inr (new_page, 0) \<and>
         insert_record fs fname rcd =
           (Inr (int (num_pages_of (file_after_create fs fname)), 0),
            fs(fname \<mapsto> file_after_create fs fname @ new_page))"
    using h
    by (simp add: content_def [symmetric] initialize_empty_page_eq insert_cases fits_empty
        slot_count_empty)
next
  assume "4088 < length rcd"
  then show "insert_record fs fname rcd =
        (Inl (ValueError (str_of ''Not enough space in page'')),
         fs(fname \<mapsto> file_after_create fs fname))"
    by (rule insert_record_oversize)
qed

theorem insert_record_first_fit_witness:
  "free_space_in_page full_page = Inr 0 \<and>
   has_room demo_page [9] \<and>
   insert_record two_page_fs heap_name [9]
     = (Inr (1, 1), two_page_fs(heap_name \<mapsto> full_page @ page_after demo_page [9])) \<and>
   num_pages_of (full_page @ page_after demo_page [9]) = 2"
proof -
  have f0: "free_space_in_page full_page = Inr 0"
    by (simp add: free_space_of full_len full_sc full_fo)
  have r0: "\<not> has_room full_page [9]"
    by (simp add: has_room_def f0)
  have r1: "has_room demo_page [9]"
    by (simp add: has_room_def free_space_of demo_len demo_sc demo_fo)
  have fit: "fits demo_page [9]"
    using r1 by (simp add: has_room_fits demo_len)
  have la: "length (page_after demo_page [9]) = 4096"
    using demo_len fit by (rule length_page_after)
  have w: "file_write_at (full_page @ demo_page) 4096 (page_after demo_page [9])
           = full_page @ page_after demo_page [9]"
    using la by (simp add: file_write_at_def full_len demo_len)
  have n: "num_pages_of (full_page @ demo_page) = 2"
    by (simp add: num_pages_of_def demo_len full_len)
  have q: "\<forall>q<1. \<not> has_room (page_of (full_page @ demo_page) q) [9]"
    using r0 by (simp add: two_page_0)
  have c: "file_after_create two_page_fs heap_name = full_page @ demo_page"
    by (rule two_page_content)
  have p1: "page_of (full_page @ demo_page) 1 = demo_page"
    using demo_len by (rule two_page_1)
  have pre: "1 < num_pages_of (file_after_create two_page_fs heap_name) \<and>
             has_room (page_of (file_after_create two_page_fs heap_name) 1) [9] \<and>
             (\<forall>q<1. \<not> has_room (page_of (file_after_create two_page_fs heap_name) q) [9])"
    unfolding c p1 using n r1 q by simp
  from insert_record_first_fit [of 1 two_page_fs heap_name "[9]", THEN conjunct1, THEN mp, OF pre]
  obtain new_page slot where
    a: "insert_record_into_page (page_of (file_after_create two_page_fs heap_name) 1) [9]
        = Inr (new_page, slot)" and
    b: "insert_record two_page_fs heap_name [9]
        = (Inr (int 1, slot),
           two_page_fs(heap_name \<mapsto>
             file_write_at (file_after_create two_page_fs heap_name) (4096 * 1) new_page))" and
    d: "num_pages_of (file_write_at (file_after_create two_page_fs heap_name) (4096 * 1) new_page)
        = num_pages_of (file_after_create two_page_fs heap_name)"
    by blast
  have e: "new_page = page_after demo_page [9]" "slot = 1"
    using a unfolding c p1 by (simp_all add: insert_cases demo_len fit demo_sc)
  show ?thesis
    using b d f0 r1 n w unfolding c e by simp
qed

lemma full_fs_content: "file_after_create full_fs heap_name = full_page"
proof -
  have "full_page \<noteq> []" using full_len by auto
  then show ?thesis by (simp add: file_after_create_def full_fs_def)
qed

lemma full_fs_pages: "num_pages_of full_page = 1" "page_of full_page 0 = full_page"
  by (simp_all add: num_pages_of_def page_of_def full_len)

text \<open>
  The claim as stated fails for a record of 4089 bytes and a file of one full page: no
  existing page has room, yet no page is appended and no page number is returned.
\<close>

theorem insert_record_first_fit_counterexample:
  "full_fs heap_name = Some full_page \<and>
   \<not> has_room full_page (replicate 4089 0) \<and>
   insert_record full_fs heap_name (replicate 4089 0)
     = (Inl (ValueError (str_of ''Not enough space in page'')), full_fs)"
proof -
  have a: "full_fs heap_name = Some full_page" by (simp add: full_fs_def)
  have b: "\<not> has_room full_page (replicate 4089 0)"
    by (simp add: has_room_def free_space_of full_len full_sc full_fo)
  have "full_fs(heap_name \<mapsto> full_page) = full_fs"
    using a by (simp add: fun_upd_idem)
  then have c: "insert_record full_fs heap_name (replicate 4089 0)
     = (Inl (ValueError (str_of ''Not enough space in page'')), full_fs)"
    by (simp add: insert_record_oversize full_fs_content)
  show ?thesis using a b c by (intro conjI)
qed

subsection \<open>Capacity errors at the file level\<close>

text \<open>
  Claim C6, as amended. For every storage state, file name and record of at most 4088
  bytes, \<open>insert_record\<close> returns an address \<open>(p, slot)\<close> and no error. On each page before
  \<open>p\<close> the page insert raised the capacity error, which \<open>insert_record\<close> caught to go on
  to the next page. Page \<open>p\<close> is either an existing page, which is rewritten with the new
  image, or, when every existing page raised, a fresh page that is appended to the
  file; the page insert on it succeeded and the record is read back from \<open>slot\<close> of the
  new image. A record longer than 4088 bytes fits no page, not even an empty one, and
  the capacity error of the insert into the fresh page reaches the caller.
\<close>

theorem insert_record_capacity_handled:
  "(length rcd \<le> 4088 \<longrightarrow>
      (\<exists>p slot old_page new_page empty.
         initialize_empty_page = Inr empty \<and>
         p \<le> num_pages_of (file_after_create fs fname) \<and>
         (\<forall>q<p. insert_record_into_page (page_of (file_after_create fs fname) q) rcd
                   = Inl (ValueError (str_of ''Not enough space in page''))) \<and>
         old_page = (if p < num_pages_of (file_after_create fs fname)
                     then page_of (file_after_create fs fname) p else empty) \<and>
         insert_record_into_page old_page rcd = Inr (new_page, slot) \<and>
         get_record_from_page new_page slot = Inr rcd \<and>
         insert_record fs fname rcd =
           (Inr (int p, slot),
            fs(fname \<mapsto>
                 (if p < num_pages_of (file_after_create fs fname)
                  then file_write_at (file_after_create fs fname) (4096 * p) new_page
                  else file_after_create fs fname @ new_page))))) \<and>
   (4088 < length rcd \<longrightarrow>
      fst (insert_record fs fname rcd) = Inl (ValueError (str_of ''Not enough space in page'')))"
proof (intro conjI impI)
  define content where "content = file_after_create fs fname"
  assume small: "length rcd \<le> 4088"
  have full: "insert_record_into_page (page_of content q) rcd
              = Inl (ValueError (str_of ''Not enough space in page''))"
    if "q < num_pages_of content" "\<not> fits (page_of content q) rcd" for q
    using that by (simp add: insert_cases length_page_of)
  have "\<exists>p slot old_page new_page empty.
         initialize_empty_page = Inr empty \<and>
         p \<le> num_pages_of content \<and>
         (\<forall>q<p. insert_record_into_page (page_of content q) rcd
                   = Inl (ValueError (str_of ''Not enough space in page''))) \<and>
         old_page = (if p < num_pages_of content then page_of content p else empty) \<and>
         insert_record_into_page old_page rcd = Inr (new_page, slot) \<and>
         get_record_from_page new_page slot = Inr rcd \<and>
         insert_record fs fname rcd =
           (Inr (int p, slot),
            fs(fname \<mapsto>
                 (if p < num_pages_of content
                  then file_write_at content (4096 * p) new_page
                  else content @ new_page)))"
  proof (cases "\<exists>p. p < num_pages_of content \<and> fits (page_of content p) rcd")
    case True
    then obtain p where p: "p < num_pages_of content" and fit: "fits (page_of content p) rcd"
      and least: "\<forall>q<p. \<not> (q < num_pages_of content \<and> fits (page_of content q) rcd)"
      using exists_least_iff [of "\<lambda>p. p < num_pages_of content \<and> fits (page_of content p) rcd"]
      by blast
    have nofit: "\<not> fits (page_of content q) rcd" if "q < p" for q
      using least that p by auto
    have lp: "length (page_of content p) = 4096" using p by (rule length_page_of)
    define new_page where "new_page = page_after (page_of content p) rcd"
    define slot where "slot = int (slot_count_of (page_of content p))"
    have la: "length new_page = 4096"
      unfolding new_page_def using lp fit by (rule length_page_after)
    have w: "file_write_at content (4096 * p) new_page = put content (4096 * p) new_page"
      using page_bound [OF p] la by (intro file_write_at_put) simp
    have i1: "insert_record_into_page (page_of content p) rcd = Inr (new_page, slot)"
      using lp fit by (simp add: insert_cases new_page_def slot_def)
    have i2: "get_record_from_page new_page slot = Inr rcd"
      unfolding new_page_def slot_def using lp fit by (rule get_new_record)
    have "insert_record fs fname rcd
              = (Inr (int p, slot), fs(fname \<mapsto> put content (4096 * p) new_page))"
      unfolding new_page_def slot_def content_def using p fit nofit
      by (intro insert_record_fit) (simp_all add: content_def)
    then have i3: "insert_record fs fname rcd
              = (Inr (int p, slot), fs(fname \<mapsto> file_write_at content (4096 * p) new_page))"
      by (simp only: w)
    have i4: "\<forall>q<p. insert_record_into_page (page_of content q) rcd
                   = Inl (ValueError (str_of ''Not enough space in page''))"
      using full nofit p by auto
    show ?thesis
      using p i1 i2 i3 i4 initialize_empty_page_eq
      by (intro exI [of _ p] exI [of _ slot] exI [of _ "page_of content p"]
          exI [of _ new_page] exI [of _ "replicate 4096 0"]) simp
  next
    case False
    then have nofit: "\<not> fits (page_of content q) rcd" if "q < num_pages_of content" for q
      using that by auto
    define new_page where "new_page = page_after (replicate 4096 0) rcd"
    have fit0: "fits (replicate 4096 0) rcd" using small by (simp add: fits_empty)
    have i1: "insert_record_into_page (replicate 4096 0) rcd = Inr (new_page, 0)"
      using fit0 by (simp add: insert_cases new_page_def slot_count_empty)
    have "get_record_from_page (page_after (replicate 4096 0) rcd)
            (int (slot_count_of (replicate 4096 0))) = Inr rcd"
      using fit0 by (intro get_new_record) simp_all
    then have i2: "get_record_from_page new_page 0 = Inr rcd"
      by (simp add: new_page_def slot_count_empty)
    have i3: "insert_record fs fname rcd
              = (Inr (int (num_pages_of content), 0), fs(fname \<mapsto> content @ new_page))"
      unfolding new_page_def content_def using nofit small
      by (intro insert_record_append) (simp_all add: content_def)
    have i4: "\<forall>q<num_pages_of content. insert_record_into_page (page_of content q) rcd
                   = Inl (ValueError (str_of ''Not enough space in page''))"
      using full nofit by auto
    show ?thesis
      using i1 i2 i3 i4 initialize_empty_page_eq
      by (intro exI [of _ "num_pages_of content"] exI [of _ 0] exI [of _ "replicate 4096 0"]
          exI [of _ new_page] exI [of _ "replicate 4096 0"]) simp
  qed
  then show "\<exists>p slot old_page new_page empty.
         initialize_empty_page = Inr empty \<and>
         p \<le> num_pages_of (file_after_create fs fname) \<and>
         (\<forall>q<p. insert_record_into_page (page_of (file_after_create fs fname) q) rcd
                   = Inl (ValueError (str_of ''Not enough space in page''))) \<and>
         old_page = (if p < num_pages_of (file_after_create fs fname)
                     then page_of (file_after_create fs fname) p else empty) \<and>
         insert_record_into_page old_page rcd = Inr (new_page, slot) \<and>
         get_record_from_page new_page slot = Inr rcd \<and>
         insert_record fs fname rcd =
           (Inr (int p, slot),
            fs(fname \<mapsto>
                 (if p < num_pages_of (file_after_create fs fname)
                  then file_write_at (file_after_create fs fname) (4096 * p) new_page
                  else file_after_create fs fname @ new_page)))"
    unfolding content_def .
next
  assume "4088 < length rcd"
  then show "fst (insert_record fs fname rcd)
             = Inl (ValueError (str_of ''Not enough space in page''))"
    by (simp add: insert_record_oversize)
qed

theorem insert_record_capacity_handled_witness:
  "length [7, 7, 7 :: byte] \<le> 4088 \<and>
   full_fs heap_name = Some full_page \<and>
   insert_record_into_page full_page [7, 7, 7]
     = Inl (ValueError (str_of ''Not enough space in page'')) \<and>
   insert_record full_fs heap_name [7, 7, 7]
     = (Inr (1, 0), full_fs(heap_name \<mapsto> full_page @ demo_page)) \<and>
   get_record_from_page demo_page 0 = Inr [7, 7, 7]"
proof -
  have s: "length [7, 7, 7 :: byte] \<le> 4088" by simp
  have a: "full_fs heap_name = Some full_page" by (simp add: full_fs_def)
  have nf: "\<not> fits full_page [7, 7, 7]"
    using full_sc full_fo by (simp add: fits_def slot_count_of_def free_offset_of_def)
  have b: "insert_record_into_page full_page [7, 7, 7]
           = Inl (ValueError (str_of ''Not enough space in page''))"
    using nf by (simp add: insert_cases full_len)
  have e: "insert_record_into_page (replicate 4096 0) [7, 7, 7] = Inr (demo_page, 0)"
    by (simp add: insert_cases fits_def slot_count_of_def u16_at_def zero_page_after)
  from insert_record_capacity_handled [of "[7, 7, 7]" full_fs heap_name, THEN conjunct1,
      THEN mp, OF s]
  obtain p slot old_page new_page empty where
    h0: "initialize_empty_page = Inr empty" and
    h1: "p \<le> num_pages_of (file_after_create full_fs heap_name)" and
    h2: "old_page = (if p < num_pages_of (file_after_create full_fs heap_name)
                     then page_of (file_after_create full_fs heap_name) p else empty)" and
    h3: "insert_record_into_page old_page [7, 7, 7] = Inr (new_page, slot)" and
    h4: "get_record_from_page new_page slot = Inr [7, 7, 7]" and
    h5: "insert_record full_fs heap_name [7, 7, 7] =
           (Inr (int p, slot),
            full_fs(heap_name \<mapsto>
                 (if p < num_pages_of (file_after_create full_fs heap_name)
                  then file_write_at (file_after_create full_fs heap_name) (4096 * p) new_page
                  else file_after_create full_fs heap_name @ new_page)))"
    by blast
  have em: "empty = replicate 4096 0" using h0 by (simp add: initialize_empty_page_eq)
  have p1: "p = 1"
  proof (rule ccontr)
    assume "p \<noteq> 1"
    then have "p = 0" using h1 by (simp add: full_fs_content full_fs_pages)
    then have "old_page = full_page" using h2 by (simp add: full_fs_content full_fs_pages)
    then show False using h3 b by simp
  qed
  have op: "old_page = replicate 4096 0"
    using h2 p1 em by (simp add: full_fs_content full_fs_pages)
  have np: "new_page = demo_page" "slot = 0" using h3 op e by simp_all
  have c: "insert_record full_fs heap_name [7, 7, 7]
     = (Inr (1, 0), full_fs(heap_name \<mapsto> full_page @ demo_page))"
    using h5 p1 np by (simp add: full_fs_content full_fs_pages)
  have d: "get_record_from_page demo_page 0 = Inr [7, 7, 7]" using h4 np by simp
  show ?thesis using s a b c d by (intro conjI)
qed

text \<open>
  The claim as stated fails for a record of 4089 bytes inserted into a file that does not
  exist yet.
\<close>

theorem insert_record_capacity_counterexample:
  "fst (insert_record no_files heap_name (replicate 4089 0))
     = Inl (ValueError (str_of ''Not enough space in page''))"
  by (simp add: insert_record_oversize)

lemma scan_slots_ok:
  assumes "length page = 4096" "n \<le> slot_count_of page" "slot_count_of page \<le> 1023"
  shows "scan_slots page P (map int [k..<n]) acc
         = Inr (acc @ map (\<lambda>s. (P, int s, record_at page s)) [k..<n])"
  using assms
proof (induction "n - k" arbitrary: k acc)
  case 0
  then show ?case by simp
next
  case (Suc d)
  then have kn: "k < n" by simp
  then have g: "get_record_from_page page (int k) = Inr (record_at page k)"
    using Suc.prems by (intro get_record_ok) simp_all
  have u: "[k..<n] = k # [Suc k..<n]" using kn by (simp add: upt_conv_Cons)
  have "scan_slots page P (map int [k..<n]) acc
        = scan_slots page P (map int [Suc k..<n]) (acc @ [(P, int k, record_at page k)])"
    unfolding u by (simp add: g)
  also have "\<dots> = Inr ((acc @ [(P, int k, record_at page k)])
                      @ map (\<lambda>s. (P, int s, record_at page s)) [Suc k..<n])"
    using Suc by (intro Suc.hyps) auto
  finally show ?case unfolding u by simp
qed

lemma page_wf_count: "page_wf page \<Longrightarrow> slot_count_of page \<le> 1023"
  by (simp add: page_wf_def)

lemma scan_pages_ok:
  assumes "fs fname = Some content" "n \<le> num_pages_of content"
    and "\<And>p. p < n \<Longrightarrow> page_wf (page_of content p)"
  shows "scan_pages fs fname (map int [k..<n]) acc
         = Inr (acc @ concat (map (page_entries content) [k..<n]))"
  using assms
proof (induction "n - k" arbitrary: k acc)
  case 0
  then show ?case by simp
next
  case (Suc d)
  then have kn: "k < n" by simp
  then have kp: "k < num_pages_of content" using Suc.prems by simp
  have wf: "page_wf (page_of content k)" using Suc.prems kn by simp
  have len: "length (page_of content k) = 4096" using kp by (rule length_page_of)
  have u: "[k..<n] = k # [Suc k..<n]" using kn by (simp add: upt_conv_Cons)
  have s: "scan_slots (page_of content k) (int k)
             (py_range (int (slot_count_of (page_of content k)))) acc
           = Inr (acc @ page_entries content k)"
    unfolding py_range_int page_entries_def
    using len page_wf_count [OF wf] by (intro scan_slots_ok) simp_all
  have "scan_pages fs fname (map int [k..<n]) acc
        = scan_pages fs fname (map int [Suc k..<n]) (acc @ page_entries content k)"
    unfolding u using Suc.prems(1) kp
    by (simp add: read_page_ok read_footer_of [OF len] s)
  also have "\<dots> = Inr ((acc @ page_entries content k)
                      @ concat (map (page_entries content) [Suc k..<n]))"
    using Suc by (intro Suc.hyps) auto
  finally show ?case unfolding u by simp
qed

lemma get_all_ok:
  assumes "fs fname = Some content" "file_wf content"
  shows "get_all_raw_records fs fname = Inr (file_records content)"
proof -
  have d: "int (length content) div 4096 = int (num_pages_of content)"
    using zdiv_int [of "length content" 4096] by (simp add: num_pages_of_def)
  have ne: "content \<noteq> []" using assms(2) by (simp add: file_wf_def)
  have "scan_pages fs fname (map int [0..<num_pages_of content]) []
        = Inr ([] @ concat (map (page_entries content) [0..<num_pages_of content]))"
    using assms by (intro scan_pages_ok) (simp_all add: file_wf_def page_packed_def)
  then show ?thesis
    using assms(1) ne
    by (simp add: get_all_raw_records_def path_exists_def getsize_def PAGE_SIZE_def d
        py_range_int file_records_def)
qed

lemma nth_page_of:
  "p < num_pages_of content \<Longrightarrow> i < 4096 \<Longrightarrow> page_of content p ! i = content ! (4096 * p + i)"
  using page_bound [of p content] by (simp add: page_of_def)

lemma num_pages_put:
  "a + length ys \<le> length xs \<Longrightarrow> num_pages_of (put xs a ys) = num_pages_of xs"
  by (simp add: num_pages_of_def length_put)

lemma page_of_put_same:
  assumes "p < num_pages_of content" "length pg = 4096"
  shows "page_of (put content (4096 * p) pg) p = pg"
proof (rule nth_equalityI)
  have b: "4096 * p + length pg \<le> length content"
    using page_bound [OF assms(1)] assms(2) by simp
  have n: "p < num_pages_of (put content (4096 * p) pg)"
    using assms(1) b by (simp add: num_pages_put)
  show l: "length (page_of (put content (4096 * p) pg) p) = length pg"
    using n assms(2) by (simp add: length_page_of)
  fix i assume "i < length (page_of (put content (4096 * p) pg) p)"
  then have i: "i < 4096" using l assms(2) by simp
  then show "page_of (put content (4096 * p) pg) p ! i = pg ! i"
    using n b assms(2) by (simp add: nth_page_of nth_put)
qed

lemma page_of_put_other:
  assumes "p < num_pages_of content" "length pg = 4096" "q < num_pages_of content" "q \<noteq> p"
  shows "page_of (put content (4096 * p) pg) q = page_of content q"
proof (rule nth_equalityI)
  have b: "4096 * p + length pg \<le> length content"
    using page_bound [OF assms(1)] assms(2) by simp
  have n: "q < num_pages_of (put content (4096 * p) pg)"
    using assms(3) b by (simp add: num_pages_put)
  show l: "length (page_of (put content (4096 * p) pg) q) = length (page_of content q)"
    using n assms(3) by (simp add: length_page_of)
  fix i assume "i < length (page_of (put content (4096 * p) pg) q)"
  then have i: "i < 4096" using n by (simp add: length_page_of)
  have k: "4096 * q + i < length content" using page_bound [OF assms(3)] i by simp
  have ne: "\<not> (4096 * p \<le> 4096 * q + i \<and> 4096 * q + i < 4096 * p + length pg)"
  proof (cases "q < p")
    case True
    then have "4096 * Suc q \<le> 4096 * p" by (intro mult_le_mono2) simp
    then show ?thesis using i by simp
  next
    case False
    then have "4096 * Suc p \<le> 4096 * q" using assms(4) by (intro mult_le_mono2) simp
    then show ?thesis using assms(2) by simp
  qed
  have "put content (4096 * p) pg ! (4096 * q + i) = content ! (4096 * q + i)"
    by (simp only: nth_put [OF b k] ne if_False)
  then show "page_of (put content (4096 * p) pg) q ! i = page_of content q ! i"
    using n assms(3) i by (simp add: nth_page_of)
qed

lemma num_pages_append:
  "length content = 4096 * n \<Longrightarrow> length pg = 4096 \<Longrightarrow> num_pages_of (content @ pg) = Suc n"
  by (simp add: num_pages_of_def)

lemma page_of_append_old:
  "q < num_pages_of content \<Longrightarrow> page_of (content @ pg) q = page_of content q"
  using page_bound [of q content] by (simp add: page_of_def)

lemma page_of_append_new:
  "length content = 4096 * n \<Longrightarrow> length pg = 4096 \<Longrightarrow> page_of (content @ pg) n = pg"
  by (simp add: page_of_def)

lemma page_records_empty: "page_records (replicate 4096 0) = []"
  by (simp add: page_records_def slot_count_empty)

lemma page_packed_empty: "page_packed (replicate 4096 0)"
  by (simp add: page_packed_def page_wf_empty page_records_empty free_offset_of_def u16_at_def)

lemma page_packed_after:
  assumes "page_packed page" "fits page rcd"
  shows "page_packed (page_after page rcd)"
proof -
  have wf: "page_wf page" using assms(1) by (simp add: page_packed_def)
  then have len: "length page = 4096" by (simp add: page_wf_def)
  show ?thesis
    using assms wf len
    by (simp add: page_packed_def page_wf_page_after page_records_page_after
        free_offset_page_after)
qed

lemma upt_split: "p < n \<Longrightarrow> [0..<n] = [0..<p] @ p # [Suc p..<n]"
  by (induction n) (auto simp: less_Suc_eq)

lemma entries_after:
  assumes "page_wf pg" "fits pg r"
  shows "map (\<lambda>s. (P, int s, record_at (page_after pg r) s)) [0..<slot_count_of (page_after pg r)]
         = map (\<lambda>s. (P, int s, record_at pg s)) [0..<slot_count_of pg]
           @ [(P, int (slot_count_of pg), r)]"
proof -
  have len: "length pg = 4096" using assms(1) by (simp add: page_wf_def)
  have "map (\<lambda>s. (P, int s, record_at (page_after pg r) s)) [0..<slot_count_of pg]
        = map (\<lambda>s. (P, int s, record_at pg s)) [0..<slot_count_of pg]"
    using assms len by (intro map_cong refl) (simp add: old_record_at page_wf_def)
  then show ?thesis
    using len assms(2) by (simp add: slot_count_page_after new_record_at)
qed

lemma page_entries_cong:
  "page_of c' q = page_of c q \<Longrightarrow> page_entries c' q = page_entries c q"
  by (simp add: page_entries_def)

lemma file_fit:
  assumes wf: "file_wf content" and p: "p < num_pages_of content"
    and fit: "fits (page_of content p) r"
  shows "file_wf (put content (4096 * p) (page_after (page_of content p) r))"
    and "\<exists>A B. file_records content = A @ B \<and>
           file_records (put content (4096 * p) (page_after (page_of content p) r))
           = A @ [(int p, int (slot_count_of (page_of content p)), r)] @ B"
proof -
  define pg where "pg = page_of content p"
  define pg' where "pg' = page_after pg r"
  define content' where "content' = put content (4096 * p) pg'"
  define n where "n = num_pages_of content"
  have pk: "page_packed pg" using wf p by (simp add: file_wf_def pg_def)
  then have pwf: "page_wf pg" by (simp add: page_packed_def)
  have len: "length pg = 4096" unfolding pg_def using p by (rule length_page_of)
  have len': "length pg' = 4096"
    unfolding pg'_def using len fit by (simp add: length_page_after pg_def)
  have b: "4096 * p + length pg' \<le> length content"
    using page_bound [OF p] len' by simp
  have l: "length content' = length content"
    unfolding content'_def using b by (rule length_put)
  have np: "num_pages_of content' = n"
    unfolding content'_def n_def using b by (rule num_pages_put)
  have same: "page_of content' p = pg'"
    unfolding content'_def using p len' by (rule page_of_put_same)
  have other: "page_of content' q = page_of content q" if "q < n" "q \<noteq> p" for q
    unfolding content'_def using p len' that by (intro page_of_put_other) (simp_all add: n_def)
  have pk': "page_packed pg'"
    unfolding pg'_def using pk fit by (intro page_packed_after) (simp_all add: pg_def)
  have pages: "page_packed (page_of content' q)" if "q < n" for q
  proof (cases "q = p")
    case True
    then show ?thesis using same pk' by simp
  next
    case False
    then show ?thesis using other [OF that False] wf that by (simp add: file_wf_def n_def)
  qed
  have ne: "content' \<noteq> []" using l wf by (auto simp: file_wf_def)
  have "file_wf content'"
    unfolding file_wf_def using ne l np pages wf by (simp add: file_wf_def n_def)
  then show "file_wf (put content (4096 * p) (page_after (page_of content p) r))"
    by (simp add: content'_def pg'_def pg_def)
  have pn: "p < n" using p by (simp add: n_def)
  have e1: "map (page_entries content') [0..<p] = map (page_entries content) [0..<p]"
    using pn by (intro map_cong refl page_entries_cong other) simp_all
  have e2: "map (page_entries content') [Suc p..<n] = map (page_entries content) [Suc p..<n]"
    by (intro map_cong refl page_entries_cong other) simp_all
  have e3: "page_entries content' p
            = page_entries content p @ [(int p, int (slot_count_of pg), r)]"
    unfolding page_entries_def same pg'_def pg_def [symmetric]
    using pwf fit by (intro entries_after) (simp_all add: pg_def)
  define A where "A = concat (map (page_entries content) [0..<p]) @ page_entries content p"
  define B where "B = concat (map (page_entries content) [Suc p..<n])"
  have r1: "file_records content = A @ B"
    unfolding file_records_def n_def [symmetric] upt_split [OF pn] by (simp add: A_def B_def)
  have r2: "file_records content' = A @ [(int p, int (slot_count_of pg), r)] @ B"
    unfolding file_records_def np upt_split [OF pn] by (simp add: A_def B_def e1 e2 e3)
  show "\<exists>A B. file_records content = A @ B \<and>
           file_records (put content (4096 * p) (page_after (page_of content p) r))
           = A @ [(int p, int (slot_count_of (page_of content p)), r)] @ B"
    using r1 r2 unfolding content'_def pg'_def pg_def by blast
qed

lemma file_append:
  assumes wf: "file_wf content" and small: "length r \<le> 4088"
  shows "file_wf (content @ page_after (replicate 4096 0) r)"
    and "file_records (content @ page_after (replicate 4096 0) r)
         = file_records content @ [(int (num_pages_of content), 0, r)]"
proof -
  define pg' where "pg' = page_after (replicate 4096 0) r"
  define n where "n = num_pages_of content"
  have fit: "fits (replicate 4096 0) r" using small by (simp add: fits_empty)
  have len': "length pg' = 4096" unfolding pg'_def using fit by (simp add: length_page_after)
  have lc: "length content = 4096 * n" using wf by (simp add: file_wf_def n_def)
  have np: "num_pages_of (content @ pg') = Suc n" using lc len' by (rule num_pages_append)
  have old: "page_of (content @ pg') q = page_of content q" if "q < n" for q
    using that by (intro page_of_append_old) (simp add: n_def)
  have new: "page_of (content @ pg') n = pg'" using lc len' by (rule page_of_append_new)
  have pk': "page_packed pg'"
    unfolding pg'_def using page_packed_empty fit by (rule page_packed_after)
  have pages: "page_packed (page_of (content @ pg') q)" if "q < Suc n" for q
  proof (cases "q = n")
    case True
    then show ?thesis using new pk' by simp
  next
    case False
    then have "q < n" using that by simp
    then show ?thesis using old [of q] wf by (simp add: file_wf_def n_def)
  qed
  have "file_wf (content @ pg')"
    unfolding file_wf_def np using pages lc len' wf by (simp add: file_wf_def)
  then show "file_wf (content @ page_after (replicate 4096 0) r)" by (simp add: pg'_def)
  have e1: "map (page_entries (content @ pg')) [0..<n] = map (page_entries content) [0..<n]"
    by (intro map_cong refl page_entries_cong old) simp
  have "page_entries (content @ pg') n
        = map (\<lambda>s. (int n, int s, record_at pg' s)) [0..<slot_count_of pg']"
    by (simp add: page_entries_def new)
  then have e3: "page_entries (content @ pg') n = [(int n, 0, r)]"
    using entries_after [OF page_wf_empty fit, of "int n"]
    by (simp add: slot_count_empty pg'_def)
  have "file_records (content @ pg') = file_records content @ [(int n, 0, r)]"
    unfolding file_records_def np by (simp add: e1 e3 n_def [symmetric])
  then show "file_records (content @ page_after (replicate 4096 0) r)
         = file_records content @ [(int (num_pages_of content), 0, r)]"
    by (simp add: pg'_def n_def)
qed

lemma insert_step:
  assumes wf: "file_wf (file_after_create fs fname)" and small: "length r \<le> 4088"
  shows "\<exists>p s content' A B.
           insert_record fs fname r = (Inr (int p, int s), fs(fname \<mapsto> content')) \<and>
           file_wf content' \<and>
           file_records (file_after_create fs fname) = A @ B \<and>
           file_records content' = A @ [(int p, int s, r)] @ B"
proof -
  define content where "content = file_after_create fs fname"
  show ?thesis
  proof (cases "\<exists>p. p < num_pages_of content \<and> fits (page_of content p) r")
    case True
    then obtain p where p: "p < num_pages_of content" and fit: "fits (page_of content p) r"
      and least: "\<forall>q<p. \<not> (q < num_pages_of content \<and> fits (page_of content q) r)"
      using exists_least_iff [of "\<lambda>p. p < num_pages_of content \<and> fits (page_of content p) r"]
      by blast
    have nofit: "\<not> fits (page_of content q) r" if "q < p" for q
      using least that p by auto
    have i: "insert_record fs fname r
             = (Inr (int p, int (slot_count_of (page_of content p))),
                fs(fname \<mapsto> put content (4096 * p) (page_after (page_of content p) r)))"
      unfolding content_def using p fit nofit
      by (intro insert_record_fit) (simp_all add: content_def)
    from file_fit [OF wf [folded content_def] p fit] obtain A B where
      w: "file_wf (put content (4096 * p) (page_after (page_of content p) r))" and
      r1: "file_records content = A @ B" and
      r2: "file_records (put content (4096 * p) (page_after (page_of content p) r))
           = A @ [(int p, int (slot_count_of (page_of content p)), r)] @ B"
      by blast
    show ?thesis
      unfolding content_def [symmetric] using i w r1 r2 by blast
  next
    case False
    then have nofit: "\<not> fits (page_of content q) r" if "q < num_pages_of content" for q
      using that by auto
    have i: "insert_record fs fname r
             = (Inr (int (num_pages_of content), int 0),
                fs(fname \<mapsto> content @ page_after (replicate 4096 0) r))"
      unfolding content_def using nofit small
      by (simp add: insert_record_append content_def)
    note fa = file_append [OF wf [folded content_def] small]
    have r1: "file_records content = file_records content @ []" by simp
    have r2: "file_records (content @ page_after (replicate 4096 0) r)
              = file_records content @ [(int (num_pages_of content), int 0, r)] @ []"
      using fa(2) by simp
    show ?thesis
      unfolding content_def [symmetric] using i fa(1) r1 r2 by blast
  qed
qed

lemma num_pages_empty_page: "num_pages_of (replicate 4096 0) = 1"
  by (simp add: num_pages_of_def)

lemma page_of_empty_page: "page_of (replicate 4096 0) 0 = replicate 4096 0"
  by (simp add: page_of_def)

lemma file_wf_empty_page: "file_wf (replicate 4096 0)"
  by (simp add: file_wf_def num_pages_empty_page page_of_empty_page page_packed_empty)

lemma file_records_empty_page: "file_records (replicate 4096 0) = []"
  by (simp add: file_records_def num_pages_empty_page page_entries_def page_of_empty_page
      slot_count_empty)

lemma file_records_nil: "file_records [] = []"
  by (simp add: file_records_def num_pages_of_def)

lemma fs_ok_create:
  assumes "fs_ok fs fname"
  shows "file_wf (file_after_create fs fname)"
    and "file_records (file_after_create fs fname) = stored fs fname"
  using assms
  by (auto simp: fs_ok_def file_after_create_def stored_def file_wf_empty_page
      file_records_empty_page file_records_nil split: option.splits)

lemma get_all_stored:
  assumes "fs_ok fs fname"
  shows "get_all_raw_records fs fname = Inr (stored fs fname)"
proof (cases "fs fname")
  case None
  then show ?thesis by (simp add: get_all_raw_records_def path_exists_def stored_def)
next
  case (Some c)
  show ?thesis
  proof (cases "c = []")
    case True
    then show ?thesis
      using Some
      by (simp add: get_all_raw_records_def path_exists_def getsize_def stored_def
          file_records_nil)
  next
    case False
    then have "file_wf c" using assms Some by (simp add: fs_ok_def)
    then show ?thesis using get_all_ok [of fs fname c] Some by (simp add: stored_def)
  qed
qed

lemma total_bytes_append: "total_bytes (xs @ ys) = total_bytes xs + total_bytes ys"
  by (simp add: total_bytes_def)

lemma insert_many_ok:
  assumes "fs_ok fs fname"
  shows "\<exists>addrs err fs'.
           insert_many fs fname recs = ((addrs, err), fs') \<and>
           length addrs = length (takeWhile insertable recs) \<and>
           err = (if list_all insertable recs then None
                  else Some (ValueError (str_of ''Not enough space in page''))) \<and>
           fs_ok fs' fname \<and>
           set (stored fs' fname) = set (stored fs fname) \<union> set (inserted addrs recs) \<and>
           length (stored fs' fname) = length (stored fs fname) + length addrs \<and>
           total_bytes (stored fs' fname)
             = total_bytes (stored fs fname) + sum_list (map length (takeWhile insertable recs))"
  using assms
proof (induction recs arbitrary: fs)
  case Nil
  then show ?case by (simp add: inserted_def)
next
  case (Cons r rs)
  note wf = fs_ok_create [OF Cons.prems]
  show ?case
  proof (cases "insertable r")
    case True
    then have small: "length r \<le> 4088" by (simp add: insertable_def)
    from insert_step [OF wf(1) small] obtain p s content' A B where
      i: "insert_record fs fname r = (Inr (int p, int s), fs(fname \<mapsto> content'))" and
      w: "file_wf content'" and
      r1: "file_records (file_after_create fs fname) = A @ B" and
      r2: "file_records content' = A @ [(int p, int s, r)] @ B"
      by blast
    define fs1 where "fs1 = fs(fname \<mapsto> content')"
    have ok1: "fs_ok fs1 fname" using w by (simp add: fs_ok_def fs1_def)
    have s1: "stored fs1 fname = A @ [(int p, int s, r)] @ B"
      using r2 by (simp add: stored_def fs1_def)
    have s0: "stored fs fname = A @ B" using r1 wf(2) by simp
    from Cons.IH [OF ok1] obtain addrs err fs' where
      m: "insert_many fs1 fname rs = ((addrs, err), fs')" and
      l: "length addrs = length (takeWhile insertable rs)" and
      e: "err = (if list_all insertable rs then None
                 else Some (ValueError (str_of ''Not enough space in page'')))" and
      ok: "fs_ok fs' fname" and
      st: "set (stored fs' fname) = set (stored fs1 fname) \<union> set (inserted addrs rs)" and
      ln: "length (stored fs' fname) = length (stored fs1 fname) + length addrs" and
      tb: "total_bytes (stored fs' fname)
             = total_bytes (stored fs1 fname) + sum_list (map length (takeWhile insertable rs))"
      by blast
    have c1: "insert_many fs fname (r # rs) = (((int p, int s) # addrs, err), fs')"
      using i m by (simp add: fs1_def)
    have c2: "length ((int p, int s) # addrs) = length (takeWhile insertable (r # rs))"
      using True l by simp
    have c3: "err = (if list_all insertable (r # rs) then None
                     else Some (ValueError (str_of ''Not enough space in page'')))"
      using True e by simp
    have c5: "set (stored fs' fname)
              = set (stored fs fname) \<union> set (inserted ((int p, int s) # addrs) (r # rs))"
      unfolding st s1 s0 by (auto simp: inserted_def)
    have c6: "length (stored fs' fname)
              = length (stored fs fname) + length ((int p, int s) # addrs)"
      unfolding ln s1 s0 by simp
    have c7: "total_bytes (stored fs' fname)
             = total_bytes (stored fs fname)
               + sum_list (map length (takeWhile insertable (r # rs)))"
      unfolding tb s1 s0 using True by (simp add: total_bytes_def)
    show ?thesis
      by (intro exI [of _ "(int p, int s) # addrs"] exI [of _ err] exI [of _ fs'] conjI
          c1 c2 c3 ok c5 c6 c7)
  next
    case False
    then have big: "4088 < length r" by (simp add: insertable_def)
    define fs1 where "fs1 = fs(fname \<mapsto> file_after_create fs fname)"
    have i: "insert_record fs fname r
             = (Inl (ValueError (str_of ''Not enough space in page'')), fs1)"
      unfolding fs1_def using big by (rule insert_record_oversize)
    have c1: "insert_many fs fname (r # rs)
              = (([], Some (ValueError (str_of ''Not enough space in page''))), fs1)"
      using i by simp
    have c2: "length ([] :: (int \<times> int) list) = length (takeWhile insertable (r # rs))"
      using False by simp
    have c3: "Some (ValueError (str_of ''Not enough space in page''))
              = (if list_all insertable (r # rs) then None
                 else Some (ValueError (str_of ''Not enough space in page'')))"
      using False by simp
    have c4: "fs_ok fs1 fname" using wf(1) by (simp add: fs_ok_def fs1_def)
    have s1: "stored fs1 fname = stored fs fname"
      using wf(2) by (simp add: stored_def fs1_def)
    have c5: "set (stored fs1 fname) = set (stored fs fname) \<union> set (inserted [] (r # rs))"
      by (simp add: s1 inserted_def)
    have c6: "length (stored fs1 fname) = length (stored fs fname) + length ([] :: (int \<times> int) list)"
      by (simp add: s1)
    have c7: "total_bytes (stored fs1 fname)
             = total_bytes (stored fs fname)
               + sum_list (map length (takeWhile insertable (r # rs)))"
      using False by (simp add: s1)
    show ?thesis
      by (intro exI [of _ "[]"] exI [of _ "Some (ValueError (str_of ''Not enough space in page''))"]
          exI [of _ fs1] conjI c1 c2 c3 c4 c5 c6 c7)
  qed
qed

lemma fst_page_entries: "e \<in> set (page_entries c p) \<Longrightarrow> fst e = int p"
  by (auto simp: page_entries_def)

lemma sorted_page_entries: "sorted_wrt addr_less (page_entries c p)"
  unfolding page_entries_def sorted_wrt_map
  by (rule sorted_wrt_mono_rel [of _ "(<)"]) (auto simp: addr_less_def)

lemma fst_pages_less:
  "e \<in> set (concat (map (page_entries c) [0..<n])) \<Longrightarrow> fst e < int n"
  by (auto dest!: fst_page_entries)

lemma sorted_pages: "sorted_wrt addr_less (concat (map (page_entries c) [0..<n]))"
proof (induction n)
  case 0
  then show ?case by simp
next
  case (Suc n)
  have "addr_less x y"
    if "x \<in> set (concat (map (page_entries c) [0..<n]))" "y \<in> set (page_entries c n)" for x y
    using fst_pages_less [OF that(1)] fst_page_entries [OF that(2)] by (simp add: addr_less_def)
  then show ?case
    using Suc sorted_page_entries [of c n] by (simp add: sorted_wrt_append)
qed

lemma sorted_stored: "sorted_wrt addr_less (stored fs fname)"
  by (simp add: stored_def file_records_def sorted_pages split: option.splits)

lemma page_entries_bound:
  assumes "page_packed (page_of c p)"
  shows "total_bytes (page_entries c p) \<le> 4088 * card (fst ` set (page_entries c p))"
proof (cases "slot_count_of (page_of c p) = 0")
  case True
  then show ?thesis by (simp add: page_entries_def total_bytes_def)
next
  case False
  have t: "total_bytes (page_entries c p) = free_offset_of (page_of c p)"
    using assms
    by (simp add: total_bytes_def page_entries_def page_packed_def page_records_def comp_def)
  have "4 * slot_count_of (page_of c p) + free_offset_of (page_of c p) \<le> 4092"
    using assms by (simp add: page_packed_def page_wf_def)
  then have b: "free_offset_of (page_of c p) \<le> 4088" using False by simp
  have "page_entries c p \<noteq> []" using False by (simp add: page_entries_def)
  then have "fst ` set (page_entries c p) = {int p}"
    using fst_page_entries [of _ c p] by (cases "page_entries c p") auto
  then show ?thesis using t b by simp
qed

lemma pages_bound:
  assumes "\<And>p. p < n \<Longrightarrow> page_packed (page_of c p)"
  shows "total_bytes (concat (map (page_entries c) [0..<n]))
         \<le> 4088 * card (fst ` set (concat (map (page_entries c) [0..<n])))"
  using assms
proof (induction n)
  case 0
  then show ?case by (simp add: total_bytes_def)
next
  case (Suc n)
  define S where "S = set (concat (map (page_entries c) [0..<n]))"
  define E where "E = set (page_entries c n)"
  have ih: "total_bytes (concat (map (page_entries c) [0..<n])) \<le> 4088 * card (fst ` S)"
    unfolding S_def using Suc.prems by (intro Suc.IH) simp
  have pe: "total_bytes (page_entries c n) \<le> 4088 * card (fst ` E)"
    unfolding E_def using Suc.prems by (intro page_entries_bound) simp
  have fin: "finite (fst ` S)" "finite (fst ` E)" by (simp_all add: S_def E_def)
  have dj: "fst ` S \<inter> fst ` E = {}"
  proof -
    have "a \<noteq> b" if "a \<in> fst ` S" "b \<in> fst ` E" for a b
    proof -
      have "a < int n" using that(1) fst_pages_less [of _ c n] by (auto simp: S_def)
      moreover have "b = int n" using that(2) fst_page_entries [of _ c n] by (auto simp: E_def)
      ultimately show ?thesis by simp
    qed
    then show ?thesis by blast
  qed
  have s: "set (concat (map (page_entries c) [0..<Suc n])) = S \<union> E"
    by (simp add: S_def E_def)
  have "card (fst ` (S \<union> E)) = card (fst ` S) + card (fst ` E)"
    unfolding image_Un using fin dj by (rule card_Un_disjoint)
  moreover have "total_bytes (concat (map (page_entries c) [0..<Suc n]))
        = total_bytes (concat (map (page_entries c) [0..<n])) + total_bytes (page_entries c n)"
    by (simp add: total_bytes_append)
  ultimately show ?case
    unfolding s using ih pe by simp
qed

lemma stored_bound:
  assumes "fs_ok fs fname"
  shows "total_bytes (stored fs fname) \<le> 4088 * card (fst ` set (stored fs fname))"
proof (cases "fs fname")
  case None
  then show ?thesis by (simp add: stored_def total_bytes_def)
next
  case (Some c)
  show ?thesis
  proof (cases "c = []")
    case True
    then show ?thesis using Some by (simp add: stored_def file_records_nil total_bytes_def)
  next
    case False
    then have "file_wf c" using assms Some by (simp add: fs_ok_def)
    then have "total_bytes (file_records c) \<le> 4088 * card (fst ` set (file_records c))"
      unfolding file_records_def by (intro pages_bound) (simp add: file_wf_def)
    then show ?thesis using Some by (simp add: stored_def)
  qed
qed

lemma sorted_distinct_addr:
  "sorted_wrt addr_less xs \<Longrightarrow> distinct (map (\<lambda>e. (fst e, fst (snd e))) xs)"
  by (induction xs) (auto simp: addr_less_def)

lemma addr_inserted:
  assumes "length addrs \<le> length recs"
  shows "map (\<lambda>e. (fst e, fst (snd e))) (inserted addrs recs) = addrs"
proof -
  have "map (\<lambda>e. (fst e, fst (snd e))) (inserted addrs recs) = map fst (zip addrs recs)"
    by (simp add: inserted_def case_prod_beta)
  also have "\<dots> = addrs" using assms by (simp add: map_fst_zip_take)
  finally show ?thesis .
qed

lemma length_inserted: "length addrs \<le> length recs \<Longrightarrow> length (inserted addrs recs) = length addrs"
  by (simp add: inserted_def)

lemma two_sorted:
  assumes "length xs = 2" "set xs = {a, b}" "sorted_wrt addr_less xs" "addr_less a b"
  shows "xs = [a, b]"
proof -
  obtain x y where xy: "xs = [x, y]"
    using assms(1) by (auto simp: length_Suc_conv numeral_2_eq_2)
  have "addr_less x y" using assms(3) xy by simp
  moreover have "\<not> addr_less b a" "\<not> addr_less a a" "\<not> addr_less b b"
    using assms(4) by (auto simp: addr_less_def)
  moreover have "{x, y} = {a, b}" using assms(2) xy by simp
  ultimately show ?thesis unfolding xy by (auto simp: doubleton_eq_iff)
qed

lemma empty_page_after_full: "page_after (replicate 4096 0) (replicate 4088 7) = full_page"
proof -
  have "slot_count_of (replicate 4096 0) = 0" "free_offset_of (replicate 4096 0) = 0"
    by (simp_all add: slot_count_of_def free_offset_of_def u16_at_def)
  then show ?thesis
    unfolding page_after_eq by (simp add: full_page_def put_def u16_bytes_def)
qed

lemma no_files_content: "file_after_create no_files heap_name = replicate 4096 0"
  by (simp add: file_after_create_def no_files_def)

subsection \<open>Scan after a sequence of inserts\<close>

text \<open>
  Claim C2, as amended. \<open>insert_many\<close> calls \<open>insert_record\<close> on the records of a sequence
  in order, collects the addresses returned and stops at the first error. Start from a
  file that is absent or has length zero. A record is inserted when it has at most 4088
  bytes (\<open>insertable\<close>); the first longer record makes \<open>insert_record\<close> raise the capacity
  error and ends the sequence, so the records inserted are the longest prefix of
  insertable records, and there is no error when every record is insertable. After
  that, \<open>get_all_raw_records\<close> returns without error the list \<open>stored\<close>, which runs through
  every page of the file in ascending order and through every slot of each page in
  ascending order. This list has one entry for each inserted record, namely the
  address that \<open>insert_record\<close> returned for it and the bytes of the record, and nothing
  else; the addresses returned are pairwise distinct; the entries are in strictly
  ascending order of page number and, within a page, of slot index; and the number of
  distinct pages in the list times 4088, the capacity of a page, is at least the total
  number of bytes of the inserted records.
\<close>

theorem scan_returns_inserted_records:
  assumes "fs fname = None \<or> fs fname = Some []"
  shows "\<exists>addrs err fs' scan.
           insert_many fs fname recs = ((addrs, err), fs') \<and>
           length addrs = length (takeWhile insertable recs) \<and>
           err = (if list_all insertable recs then None
                  else Some (ValueError (str_of ''Not enough space in page''))) \<and>
           get_all_raw_records fs' fname = Inr scan \<and>
           scan = stored fs' fname \<and>
           length scan = length addrs \<and>
           set scan = set (inserted addrs recs) \<and>
           distinct addrs \<and>
           sorted_wrt addr_less scan \<and>
           sum_list (map length (takeWhile insertable recs)) \<le> 4088 * card (fst ` set scan)"
proof -
  have ok0: "fs_ok fs fname" using assms by (auto simp: fs_ok_def)
  have st0: "stored fs fname = []" using assms by (auto simp: stored_def file_records_nil)
  from insert_many_ok [OF ok0, of recs] obtain addrs err fs' where
    m: "insert_many fs fname recs = ((addrs, err), fs')" and
    l: "length addrs = length (takeWhile insertable recs)" and
    e: "err = (if list_all insertable recs then None
               else Some (ValueError (str_of ''Not enough space in page'')))" and
    ok: "fs_ok fs' fname" and
    st: "set (stored fs' fname) = set (stored fs fname) \<union> set (inserted addrs recs)" and
    ln: "length (stored fs' fname) = length (stored fs fname) + length addrs" and
    tb: "total_bytes (stored fs' fname)
           = total_bytes (stored fs fname) + sum_list (map length (takeWhile insertable recs))"
    by blast
  define scan where "scan = stored fs' fname"
  have g: "get_all_raw_records fs' fname = Inr scan"
    unfolding scan_def using ok by (rule get_all_stored)
  have c5: "scan = stored fs' fname" by (simp add: scan_def)
  have c6: "length scan = length addrs" using ln st0 by (simp add: scan_def)
  have c7: "set scan = set (inserted addrs recs)" using st st0 by (simp add: scan_def)
  have c9: "sorted_wrt addr_less scan" unfolding scan_def by (rule sorted_stored)
  have c10: "sum_list (map length (takeWhile insertable recs)) \<le> 4088 * card (fst ` set scan)"
    using stored_bound [OF ok] tb st0 by (simp add: scan_def total_bytes_def)
  have le: "length addrs \<le> length recs" using l length_takeWhile_le [of insertable recs] by simp
  have da: "distinct (map (\<lambda>e. (fst e, fst (snd e))) scan)"
    using c9 by (rule sorted_distinct_addr)
  then have ds: "distinct scan" and inj: "inj_on (\<lambda>e. (fst e, fst (snd e))) (set scan)"
    by (simp_all add: distinct_map)
  have "card (set (inserted addrs recs)) = length (inserted addrs recs)"
    using ds c6 c7 le by (simp add: length_inserted distinct_card [symmetric])
  then have di: "distinct (inserted addrs recs)" by (rule card_distinct)
  have "distinct (map (\<lambda>e. (fst e, fst (snd e))) (inserted addrs recs))"
    using di inj c7 by (simp add: distinct_map)
  then have c8: "distinct addrs" using le by (simp add: addr_inserted)
  show ?thesis
    by (intro exI [of _ addrs] exI [of _ err] exI [of _ fs'] exI [of _ scan] conjI
        m l e g c5 c6 c7 c8 c9 c10)
qed

theorem scan_returns_inserted_records_witness:
  "no_files heap_name = None \<and>
   list_all insertable [replicate 4088 7, [7, 7, 7]] \<and>
   insert_many no_files heap_name [replicate 4088 7, [7, 7, 7]]
     = (([(0, 0), (1, 0)], None), two_page_fs) \<and>
   get_all_raw_records two_page_fs heap_name
     = Inr [(0, 0, replicate 4088 7), (1, 0, [7, 7, 7])] \<and>
   4091 \<le> 4088 * card (fst ` set [(0 :: int, 0 :: int, replicate 4088 (7 :: byte)),
                                   (1, 0, [7, 7, 7])])"
proof -
  define r1 :: bytes where "r1 = replicate 4088 7"
  define r2 :: bytes where "r2 = [7, 7, 7]"
  have a: "no_files heap_name = None" by (simp add: no_files_def)
  have b: "list_all insertable [r1, r2]" by (simp add: insertable_def r1_def r2_def)
  have f1: "fits (replicate 4096 0) r1" by (simp add: fits_empty r1_def)
  have "insert_record no_files heap_name r1
        = (Inr (int 0, int (slot_count_of (page_of (file_after_create no_files heap_name) 0))),
           no_files(heap_name \<mapsto> put (file_after_create no_files heap_name) (4096 * 0)
                 (page_after (page_of (file_after_create no_files heap_name) 0) r1)))"
    using f1
    by (intro insert_record_fit)
      (simp_all add: no_files_content num_pages_empty_page page_of_empty_page)
  moreover have "put (replicate 4096 0) 0 full_page = full_page"
    by (simp add: put_def full_len)
  moreover have "no_files(heap_name \<mapsto> full_page) = full_fs"
    by (simp add: no_files_def full_fs_def)
  ultimately have i1: "insert_record no_files heap_name r1 = (Inr (0, 0), full_fs)"
    using empty_page_after_full
    by (simp add: no_files_content page_of_empty_page slot_count_empty r1_def)
  have nf: "\<not> fits full_page r2"
    using full_sc full_fo by (simp add: fits_def slot_count_of_def free_offset_of_def r2_def)
  have "insert_record full_fs heap_name r2
        = (Inr (int (num_pages_of (file_after_create full_fs heap_name)), 0),
           full_fs(heap_name \<mapsto> file_after_create full_fs heap_name
                 @ page_after (replicate 4096 0) r2))"
    using nf
    by (intro insert_record_append) (simp_all add: full_fs_content full_fs_pages r2_def)
  moreover have "full_fs(heap_name \<mapsto> full_page @ demo_page) = two_page_fs"
    by (simp add: full_fs_def two_page_fs_def)
  ultimately have i2: "insert_record full_fs heap_name r2 = (Inr (1, 0), two_page_fs)"
    using zero_page_after by (simp add: full_fs_content full_fs_pages r2_def)
  have m: "insert_many no_files heap_name [r1, r2] = (([(0, 0), (1, 0)], None), two_page_fs)"
    by (simp add: i1 i2)
  from scan_returns_inserted_records [of no_files heap_name "[r1, r2]"] a
  obtain addrs err fs' scan where
    h1: "insert_many no_files heap_name [r1, r2] = ((addrs, err), fs')" and
    h2: "get_all_raw_records fs' heap_name = Inr scan" and
    h3: "length scan = length addrs" and
    h4: "set scan = set (inserted addrs [r1, r2])" and
    h5: "sorted_wrt addr_less scan" and
    h6: "sum_list (map length (takeWhile insertable [r1, r2])) \<le> 4088 * card (fst ` set scan)"
    by blast
  have ad: "addrs = [(0, 0), (1, 0)]" and fs': "fs' = two_page_fs" using h1 m by simp_all
  have l2: "length scan = 2" using h3 ad by simp
  have s2: "set scan = {(0, 0, r1), (1, 0, r2)}" using h4 ad by (simp add: inserted_def)
  have "addr_less (0, 0, r1) (1, 0, r2)" by (simp add: addr_less_def)
  with l2 s2 h5 have sc: "scan = [(0, 0, r1), (1, 0, r2)]" by (rule two_sorted)
  have c: "get_all_raw_records two_page_fs heap_name = Inr [(0, 0, r1), (1, 0, r2)]"
    using h2 fs' sc by simp
  have "sum_list (map length (takeWhile insertable [r1, r2])) = 4091"
    by (simp add: insertable_def r1_def r2_def)
  then have d: "4091 \<le> 4088 * card (fst ` set [(0 :: int, 0 :: int, r1), (1, 0, r2)])"
    using h6 sc by simp
  show ?thesis
    using a b m c d unfolding r1_def r2_def by (intro conjI)
qed

text \<open>
  The claim as stated fails for the sequence of one record of 4089 bytes and a file
  that does not exist yet: \<open>insert_record\<close> raises, and the scan of the file it leaves
  behind returns no record.
\<close>

theorem scan_returns_inserted_records_counterexample:
  "insert_many no_files heap_name [replicate 4089 0]
     = (([], Some (ValueError (str_of ''Not enough space in page''))),
        no_files(heap_name \<mapsto> replicate 4096 0)) \<and>
   get_all_raw_records (no_files(heap_name \<mapsto> replicate 4096 0)) heap_name = Inr []"
proof -
  have a: "insert_many no_files heap_name [replicate 4089 0]
     = (([], Some (ValueError (str_of ''Not enough space in page''))),
        no_files(heap_name \<mapsto> replicate 4096 0))"
    by (simp add: insert_record_oversize no_files_content)
  have "fs_ok (no_files(heap_name \<mapsto> replicate 4096 0)) heap_name"
    by (simp add: fs_ok_def file_wf_empty_page)
  then have "get_all_raw_records (no_files(heap_name \<mapsto> replicate 4096 0)) heap_name
             = Inr (stored (no_files(heap_name \<mapsto> replicate 4096 0)) heap_name)"
    by (rule get_all_stored)
  then have b: "get_all_raw_records (no_files(heap_name \<mapsto> replicate 4096 0)) heap_name = Inr []"
    by (simp add: stored_def file_records_empty_page)
  show ?thesis using a b by (intro conjI)
qed

lemma py_slice_prefix: "0 \<le> n \<Longrightarrow> py_slice xs 0 n = take (nat n) xs"
  using py_slice_nat [of xs 0 "nat n"] by simp

lemma py_repeat_zero: "py_repeat [0 :: byte] k = replicate (nat k) 0"
  by (induction "nat k" arbitrary: k) (auto simp: py_repeat_def replicate_append_same)

lemma pack_char_eq:
  assumes "0 \<le> n" "utf8_encode s = Inr b"
  shows "pack_char s n = Inr (take (nat n) b @ replicate (nat n - length b) 0)"
proof (cases "int (length b) > n")
  case True
  then have "nat n - length b = 0" "nat (n - int (min (length b) (nat n))) = 0"
    using assms(1) by auto
  then show ?thesis
    using assms True by (simp add: pack_char_def py_slice_prefix py_repeat_zero)
next
  case False
  then have "nat (n - int (length b)) = nat n - length b" "length b \<le> nat n"
    using assms(1) by auto
  then show ?thesis
    using assms False by (simp add: pack_char_def py_repeat_zero)
qed

lemma takeWhile_eq_replicate:
  "takeWhile (\<lambda>x. x = a) xs = replicate (length (takeWhile (\<lambda>x. x = a) xs)) a"
  by (induction xs) auto

lemma dropWhile_replicate_append:
  "dropWhile (\<lambda>x. x = a) (replicate k a @ ys) = dropWhile (\<lambda>x. x = a) ys"
  by (induction k) auto

lemma rstrip_zero_decomp:
  "\<exists>k. c = rstrip_zero c @ replicate k 0 \<and> (rstrip_zero c = [] \<or> last (rstrip_zero c) \<noteq> 0)"
proof -
  define r where "r = rev c"
  have a: "r = takeWhile (\<lambda>x. x = 0) r @ dropWhile (\<lambda>x. x = 0) r" by simp
  have t: "takeWhile (\<lambda>x. x = 0) r = replicate (length (takeWhile (\<lambda>x. x = 0) r)) 0"
    by (rule takeWhile_eq_replicate)
  have "c = rev r" by (simp add: r_def)
  also have "\<dots> = rev (dropWhile (\<lambda>x. x = 0) r) @ rev (takeWhile (\<lambda>x. x = 0) r)"
    by (subst a) (simp only: rev_append)
  also have "rev (takeWhile (\<lambda>x. x = 0) r) = replicate (length (takeWhile (\<lambda>x. x = 0) r)) 0"
    by (subst t) simp
  finally have d: "c = rstrip_zero c @ replicate (length (takeWhile (\<lambda>x. x = 0) r)) 0"
    by (simp add: rstrip_zero_def r_def)
  have "dropWhile (\<lambda>x. x = 0) r = [] \<or> hd (dropWhile (\<lambda>x. x = 0) r) \<noteq> 0"
    using hd_dropWhile [of "\<lambda>x. x = 0" r] by auto
  then have "rstrip_zero c = [] \<or> last (rstrip_zero c) \<noteq> 0"
    by (auto simp: rstrip_zero_def r_def last_rev)
  with d show ?thesis by blast
qed

lemma rstrip_zero_padded:
  "b = [] \<or> last b \<noteq> 0 \<Longrightarrow> rstrip_zero (b @ replicate k 0) = b"
proof -
  assume h: "b = [] \<or> last b \<noteq> 0"
  have "dropWhile (\<lambda>x. x = 0) (replicate k (0::byte) @ rev b) = dropWhile (\<lambda>x. x = 0) (rev b)"
    by (rule dropWhile_replicate_append)
  moreover have "dropWhile (\<lambda>x. x = 0) (rev b) = rev b"
    using h by (cases "rev b") (auto simp: hd_rev [symmetric])
  ultimately show ?thesis by (simp add: rstrip_zero_def)
qed

lemma utf8_abc: "utf8_encode [97, 98, 99] = Inr [97, 98, 99]"
  by (simp add: utf8_encode_cp_def)

lemma utf8_decode_abc: "utf8_decode [97, 98, 99] = Inr [97, 98, 99]"
  by simp

lemma unpack_varchar_eq:
  "c \<noteq> [] \<Longrightarrow> unpack_varchar c k = utf8_decode (take (unat (hd c)) (tl c))"
proof -
  assume h: "c \<noteq> []"
  have "py_slice c (int 1) (int (1 + unat (hd c))) = take (unat (hd c)) (drop 1 c)"
    by (simp only: py_slice_nat) simp
  moreover have "int (1 + unat (hd c)) = 1 + uint (c ! 0)"
    using h by (cases c) simp_all
  ultimately show ?thesis
    using h by (simp add: unpack_varchar_def Let_def drop_Suc)
qed

lemma pack_varchar_eq:
  assumes "0 \<le> n" "utf8_encode s = Inr b"
  shows "pack_varchar s n =
           Inr (of_nat (min (length b) (min (nat n) 255)) # take 255 (take (nat n) b)
                @ replicate (nat n - min (length b) (min (nat n) 255)) 0)"
proof -
  define b1 where "b1 = (if int (length b) > n then py_slice b 0 n else b)"
  define b2 where "b2 = (if length b1 \<ge> 256 then py_slice b1 0 255 else b1)"
  have e1: "b1 = take (nat n) b"
    using assms(1) by (auto simp: b1_def py_slice_prefix)
  have e2: "b2 = take 255 b1"
    using py_slice_prefix [of 255 b1] by (auto simp: b2_def)
  have l2: "length b2 = min (length b) (min (nat n) 255)"
    by (simp add: e1 e2 min.commute min.left_commute)
  have p: "pack_uint8 (int (length b2)) = Inr [of_nat (length b2)]"
    by (simp add: pack_uint8_def l2)
  have r: "nat (n - int (length b2)) = nat n - length b2"
    using assms(1) by simp
  have "pack_varchar s n = Inr (of_nat (length b2) # b2 @ replicate (nat n - length b2) 0)"
    using assms(2) p
    by (simp add: pack_varchar_def Let_def b1_def [symmetric] b2_def [symmetric]
        py_repeat_zero r)
  then show ?thesis
    by (simp only: l2) (simp add: e1 e2)
qed

subsection \<open>The char(n) encoding\<close>

text \<open>
  Claim C8. For a string \<open>s\<close> with UTF-8 bytes \<open>b\<close> and a width \<open>n \<ge> 0\<close>, \<open>pack_char\<close>
  yields the first \<open>n\<close> bytes of \<open>b\<close> (a cut that can fall inside a multi-byte code
  point) followed by zero bytes up to exactly \<open>n\<close> bytes. \<open>unpack_char\<close> decodes what
  remains of its input once every trailing zero byte is removed.
\<close>

theorem pack_char_layout:
  assumes "0 \<le> n" and "utf8_encode s = Inr b"
  shows "(\<exists>out. pack_char s n = Inr out \<and>
            out = take (nat n) b @ replicate (nat n - length b) 0 \<and>
            length out = nat n) \<and>
         unpack_char c = utf8_decode (rstrip_zero c) \<and>
         (\<exists>k. c = rstrip_zero c @ replicate k 0 \<and>
              (rstrip_zero c = [] \<or> last (rstrip_zero c) \<noteq> 0))"
proof -
  have "length (take (nat n) b @ replicate (nat n - length b) (0::byte)) = nat n"
    by auto
  then show ?thesis
    using pack_char_eq [OF assms] rstrip_zero_decomp [of c] by (simp add: unpack_char_def)
qed

theorem pack_char_layout_witness:
  "(0::int) \<le> 5 \<and> utf8_encode [97, 98, 99] = Inr [97, 98, 99] \<and>
   pack_char [97, 98, 99] 5 = Inr [97, 98, 99, 0, 0] \<and>
   pack_char [97, 98, 99] 2 = Inr [97, 98] \<and>
   unpack_char [97, 98, 99, 0, 0] = Inr [97, 98, 99]"
proof -
  have z: "rstrip_zero [97, 98, 99, 0, 0] = [97, 98, 99]"
    by (simp add: rstrip_zero_def)
  have t5: "take (nat 5) [97, 98, 99 :: byte] @ replicate (nat 5 - length [97, 98, 99 :: byte]) 0
            = [97, 98, 99, 0, 0]"
    by (simp add: numeral_eq_Suc)
  have t2: "take (nat 2) [97, 98, 99 :: byte] @ replicate (nat 2 - length [97, 98, 99 :: byte]) 0
            = [97, 98]"
    by (simp add: numeral_eq_Suc)
  have p5: "(0::int) \<le> 5" and p2: "(0::int) \<le> 2" by simp_all
  show ?thesis
    using pack_char_layout [OF p5 utf8_abc, of "[97, 98, 99, 0, 0]"]
      pack_char_layout [OF p2 utf8_abc, of "[]"]
    unfolding t5 t2 z by (simp add: utf8_abc del: utf8_encode.simps)
qed

subsection \<open>The varchar(n) encoding\<close>

text \<open>
  Claim C7. For a string \<open>s\<close> with UTF-8 bytes \<open>b\<close> and a width \<open>n \<ge> 0\<close>, \<open>pack_varchar\<close>
  yields one length byte equal to \<open>min (length b) (min n 255)\<close>, then the content \<open>b\<close> cut
  first to \<open>n\<close> and then to 255 bytes, then zero bytes, \<open>1 + n\<close> bytes in all.
  \<open>unpack_varchar\<close> reads the first byte as a length and decodes that many of the bytes
  that follow.
\<close>

theorem pack_varchar_layout:
  assumes "0 \<le> n" and "utf8_encode s = Inr b"
  shows "(\<exists>out. pack_varchar s n = Inr out \<and>
            out = of_nat (min (length b) (min (nat n) 255)) # take 255 (take (nat n) b)
                  @ replicate (nat n - min (length b) (min (nat n) 255)) 0 \<and>
            length (take 255 (take (nat n) b)) = min (length b) (min (nat n) 255) \<and>
            unat (hd out) = min (length b) (min (nat n) 255) \<and>
            length out = 1 + nat n \<and>
            unpack_varchar out n = utf8_decode (take 255 (take (nat n) b))) \<and>
         (c \<noteq> [] \<longrightarrow> unpack_varchar c k = utf8_decode (take (unat (hd c)) (tl c)))"
proof -
  define m where "m = min (length b) (min (nat n) 255)"
  define out where "out = of_nat m # take 255 (take (nat n) b) @ replicate (nat n - m) (0::byte)"
  have l: "length (take 255 (take (nat n) b)) = m"
    by (simp add: m_def min.commute min.left_commute)
  have u: "unat (of_nat m :: byte) = m"
    by (simp add: unat_byte m_def)
  have lo: "length out = 1 + nat n"
    using l by (simp add: out_def)
  have d: "unpack_varchar out n = utf8_decode (take 255 (take (nat n) b))"
  proof -
    define content where "content = take 255 (take (nat n) b)"
    have lc: "length content = m" using l by (simp add: content_def)
    have o: "out = of_nat m # content @ replicate (nat n - m) 0"
      by (simp add: out_def content_def)
    have "unpack_varchar out n = utf8_decode (take (unat (hd out)) (tl out))"
      by (rule unpack_varchar_eq) (simp add: o)
    also have "take (unat (hd out)) (tl out) = content"
      unfolding o using lc u by simp
    finally show ?thesis by (simp add: content_def)
  qed
  have "pack_varchar s n = Inr out"
    using pack_varchar_eq [OF assms] by (simp add: out_def m_def)
  moreover have "out = of_nat m # take 255 (take (nat n) b) @ replicate (nat n - m) 0"
    by (simp add: out_def)
  moreover have "unat (hd out) = m"
    using u by (simp add: out_def)
  ultimately show ?thesis
    using l lo d unpack_varchar_eq [of c k]
    unfolding m_def [symmetric] by blast
qed

theorem pack_varchar_layout_witness:
  "(0::int) \<le> 5 \<and> utf8_encode [97, 98, 99] = Inr [97, 98, 99] \<and>
   pack_varchar [97, 98, 99] 5 = Inr [3, 97, 98, 99, 0, 0] \<and>
   unpack_varchar [3, 97, 98, 99, 0, 0] 5 = Inr [97, 98, 99]"
proof -
  have m: "min (length [97, 98, 99 :: byte]) (min (nat 5) 255) = 3"
    by simp
  have t: "take 255 (take (nat 5) [97, 98, 99 :: byte]) = [97, 98, 99]"
    by (simp add: numeral_eq_Suc)
  have r: "replicate (nat 5 - 3) (0::byte) = [0, 0]"
    by (simp add: numeral_eq_Suc)
  have p5: "(0::int) \<le> 5" by simp
  show ?thesis
    using pack_varchar_layout [OF p5 utf8_abc, of "[3, 97, 98, 99, 0, 0]" 5]
    unfolding m t r by (simp add: utf8_abc del: utf8_encode.simps)
qed

subsection \<open>Scanning a file that was never written\<close>

text \<open>
  Claim C10. When the file does not exist, or exists with length zero,
  \<open>get_all_raw_records\<close> returns the empty list and no error; and for a table of the
  schema whose heap file is in that state, \<open>read_all_structured_records\<close> returns the
  empty list.
\<close>

theorem scan_of_unwritten_file:
  "(fs fname = None \<or> fs fname = Some [] \<longrightarrow> get_all_raw_records fs fname = Inr []) \<and>
   (sch tname = Some table \<and>
    (fs (table_file_name table) = None \<or> fs (table_file_name table) = Some []) \<longrightarrow>
      read_all_structured_records fs tname sch = Inr [])"
proof -
  have a: "get_all_raw_records fs' f = Inr []" if "fs' f = None \<or> fs' f = Some []" for fs' f
    using that by (auto simp: get_all_raw_records_def path_exists_def getsize_def)
  show ?thesis
    using a [of fs fname] a [of fs "table_file_name table"]
    by (auto simp: read_all_structured_records_def)
qed

theorem scan_of_unwritten_file_witness:
  "no_files heap_name = None \<and>
   get_all_raw_records no_files heap_name = Inr [] \<and>
   demo_schema (str_of ''Employee'') = Some employee_table \<and>
   no_files (table_file_name employee_table) = None \<and>
   read_all_structured_records no_files (str_of ''Employee'') demo_schema = Inr []"
proof -
  have s: "demo_schema (str_of ''Employee'') = Some employee_table"
    by (simp add: demo_schema_def)
  have n: "no_files f = None" for f
    by (simp add: no_files_def)
  show ?thesis
    using scan_of_unwritten_file [of no_files heap_name demo_schema "str_of ''Employee''"
        employee_table] s n
    by simp
qed

lemma split2: "(x::nat) div 64 * 64 + x mod 64 = x"
  by simp

lemma split3: "(c div 4096) * 4096 + (c div 64 mod 64) * 64 + c mod 64 = (c::nat)"
proof -
  define x where "x = c div 64"
  define y where "y = c div 4096"
  define z where "z = x mod 64"
  define m where "m = c mod 64"
  have a: "x div 64 = y" using div_mult2_eq [of c 64 64] by (simp add: x_def y_def)
  have b: "x = y * 64 + z" using split2 [of x] by (simp add: a z_def)
  have c: "c = x * 64 + m" using split2 [of c] by (simp add: x_def m_def)
  have "y * 4096 + z * 64 + m = c" unfolding c b by simp
  then show ?thesis by (simp add: x_def y_def z_def m_def)
qed

lemma split4:
  "(c div 262144) * 262144 + (c div 4096 mod 64) * 4096 + (c div 64 mod 64) * 64 + c mod 64
   = (c::nat)"
proof -
  define x where "x = c div 4096"
  have a: "x div 64 = c div 262144" using div_mult2_eq [of c 4096 64] by (simp add: x_def)
  define y where "y = c div 262144"
  define z where "z = x mod 64"
  have b: "x = y * 64 + z" using split2 [of x] by (simp add: a z_def y_def)
  define r where "r = (c div 64 mod 64) * 64 + c mod 64"
  have c: "x * 4096 + r = c" using split3 [of c] by (simp add: x_def r_def)
  have "y * 262144 + z * 4096 + r = c" unfolding c [symmetric] b by simp
  then show ?thesis by (simp add: x_def y_def z_def r_def)
qed

lemma decode_encode_cp:
  assumes "utf8_encode_cp c = Inr e"
  shows "utf8_decode (e @ rest)
         = (case utf8_decode rest of Inl x \<Rightarrow> Inl x | Inr cs \<Rightarrow> Inr (c # cs))"
proof -
  define w0 :: byte where "w0 = of_nat (if c < 128 then c else if c < 2048 then 192 + c div 64
      else if c < 65536 then 224 + c div 4096 else 240 + c div 262144)"
  define w1 :: byte where "w1 = of_nat (128 + c mod 64)"
  define w2 :: byte where "w2 = of_nat (128 + c div 64 mod 64)"
  define w3 :: byte where "w3 = of_nat (128 + c div 4096 mod 64)"
  have u1: "unat w1 = 128 + c mod 64"
    unfolding w1_def by (intro unat_byte) simp
  have u2: "unat w2 = 128 + c div 64 mod 64"
    unfolding w2_def by (intro unat_byte) simp
  have u3: "unat w3 = 128 + c div 4096 mod 64"
    unfolding w3_def by (intro unat_byte) simp
  consider (a) "c < 128" | (b) "128 \<le> c" "c < 2048"
    | (c) "2048 \<le> c" "c < 65536" "\<not> (55296 \<le> c \<and> c < 57344)"
    | (d) "65536 \<le> c" "c < 1114112"
    using assms by (auto simp: utf8_encode_cp_def split: if_splits)
  then show ?thesis
  proof cases
    case a
    then have e: "e = [w0]" using assms by (simp add: utf8_encode_cp_def w0_def)
    have u0: "unat w0 = c" using a unat_byte [of c] by (simp add: w0_def)
    show ?thesis unfolding e using a by (simp add: u0 split: sum.splits)
  next
    case b
    then have e: "e = [w0, w1]"
      using assms by (simp add: utf8_encode_cp_def w0_def w1_def)
    have u0: "unat w0 = 192 + c div 64"
      using b unat_byte [of "192 + c div 64"] by (simp add: w0_def)
    have r: "2 \<le> c div 64" "c div 64 < 32" using b by simp_all
    show ?thesis
      unfolding e using r by (simp add: u0 u1 is_cont_def split2 split: sum.splits)
  next
    case c
    then have e: "e = [w0, w2, w1]"
      using assms by (auto simp: utf8_encode_cp_def w0_def w1_def w2_def split: if_splits)
    have u0: "unat w0 = 224 + c div 4096"
      using c unat_byte [of "224 + c div 4096"] by (simp add: w0_def)
    have r: "c div 4096 < 16" using c by simp
    show ?thesis
      unfolding e using r c by (simp add: u0 u1 u2 is_cont_def split3 split: sum.splits)
  next
    case d
    then have e: "e = [w0, w3, w2, w1]"
      using assms by (auto simp: utf8_encode_cp_def w0_def w1_def w2_def w3_def split: if_splits)
    have u0: "unat w0 = 240 + c div 262144"
      using d unat_byte [of "240 + c div 262144"] by (simp add: w0_def)
    have r: "c div 262144 < 5" using d by simp
    show ?thesis
      unfolding e using r d by (simp add: u0 u1 u2 u3 is_cont_def split4 split: sum.splits)
  qed
qed

lemma utf8_round_trip: "utf8_encode s = Inr b \<Longrightarrow> utf8_decode b = Inr s"
proof (induction s arbitrary: b)
  case Nil
  then show ?case by simp
next
  case (Cons c cs)
  then obtain e bs where e: "utf8_encode_cp c = Inr e" and bs: "utf8_encode cs = Inr bs"
    and b: "b = e @ bs"
    by (auto split: sum.splits)
  show ?case
    unfolding b using decode_encode_cp [OF e, of bs] Cons.IH [OF bs] by simp
qed

lemma be32_int:
  fixes v :: int
  shows "((v div 16777216 mod 256 * 256 + v div 65536 mod 256) * 256 + v div 256 mod 256) * 256
         + v mod 256 = v mod 4294967296"
proof -
  have n2: "(65536::int) = 256 * 256" and n3: "(16777216::int) = 65536 * 256"
    and n4: "(4294967296::int) = 256 * 16777216" and n3': "(16777216::int) = 256 * 65536"
    by simp_all
  define x1 where "x1 = v div 256"
  define x2 where "x2 = v div 65536"
  define x3 where "x3 = v div 16777216"
  define y0 where "y0 = v mod 256"
  define y1 where "y1 = x1 mod 256"
  define y2 where "y2 = x2 mod 256"
  define y3 where "y3 = x3 mod 256"
  have "v div (256 * 256) = v div 256 div 256" by (rule zdiv_zmult2_eq) simp
  then have d2: "x1 div 256 = x2" unfolding x1_def x2_def n2 by (rule sym)
  have "v div (65536 * 256) = v div 65536 div 256" by (rule zdiv_zmult2_eq) simp
  then have d3: "x2 div 256 = x3" unfolding x2_def x3_def n3 by (rule sym)
  have "v mod (256 * 16777216) = 256 * (v div 256 mod 16777216) + v mod 256"
    by (rule zmod_zmult2_eq) simp
  then have m1: "v mod 4294967296 = 256 * (x1 mod 16777216) + y0"
    unfolding x1_def y0_def n4 .
  have "x1 mod (256 * 65536) = 256 * (x1 div 256 mod 65536) + x1 mod 256"
    by (rule zmod_zmult2_eq) simp
  then have m2: "x1 mod 16777216 = 256 * (x2 mod 65536) + y1"
    unfolding d2 y1_def n3' .
  have "x2 mod (256 * 256) = 256 * (x2 div 256 mod 256) + x2 mod 256"
    by (rule zmod_zmult2_eq) simp
  then have m3: "x2 mod 65536 = 256 * y3 + y2"
    unfolding d3 y2_def y3_def n2 .
  have "((y3 * 256 + y2) * 256 + y1) * 256 + y0 = 256 * (256 * (256 * y3 + y2) + y1) + y0"
    by (simp only: mult.commute)
  also have "\<dots> = v mod 4294967296"
    unfolding m1 m2 m3 ..
  finally show ?thesis
    unfolding x1_def x2_def x3_def y0_def y1_def y2_def y3_def .
qed

lemma be32_nat:
  fixes v :: nat
  shows "((v div 16777216 mod 256 * 256 + v div 65536 mod 256) * 256 + v div 256 mod 256) * 256
         + v mod 256 = v mod 4294967296"
proof -
  have n2: "(65536::nat) = 256 * 256" and n3: "(16777216::nat) = 65536 * 256"
    and n4: "(4294967296::nat) = 256 * 16777216" and n3': "(16777216::nat) = 256 * 65536"
    by simp_all
  define x1 where "x1 = v div 256"
  define x2 where "x2 = v div 65536"
  define x3 where "x3 = v div 16777216"
  define y0 where "y0 = v mod 256"
  define y1 where "y1 = x1 mod 256"
  define y2 where "y2 = x2 mod 256"
  define y3 where "y3 = x3 mod 256"
  have "v div (256 * 256) = v div 256 div 256" by (rule div_mult2_eq)
  then have d2: "x1 div 256 = x2" unfolding x1_def x2_def n2 by (rule sym)
  have "v div (65536 * 256) = v div 65536 div 256" by (rule div_mult2_eq)
  then have d3: "x2 div 256 = x3" unfolding x2_def x3_def n3 by (rule sym)
  have "v mod (256 * 16777216) = 256 * (v div 256 mod 16777216) + v mod 256"
    by (rule mod_mult2_eq)
  then have m1: "v mod 4294967296 = 256 * (x1 mod 16777216) + y0"
    unfolding x1_def y0_def n4 .
  have "x1 mod (256 * 65536) = 256 * (x1 div 256 mod 65536) + x1 mod 256"
    by (rule mod_mult2_eq)
  then have m2: "x1 mod 16777216 = 256 * (x2 mod 65536) + y1"
    unfolding d2 y1_def n3' .
  have "x2 mod (256 * 256) = 256 * (x2 div 256 mod 256) + x2 mod 256"
    by (rule mod_mult2_eq)
  then have m3: "x2 mod 65536 = 256 * y3 + y2"
    unfolding d3 y2_def y3_def n2 .
  have "((y3 * 256 + y2) * 256 + y1) * 256 + y0 = 256 * (256 * (256 * y3 + y2) + y1) + y0"
    by (simp only: mult.commute)
  also have "\<dots> = v mod 4294967296"
    unfolding m1 m2 m3 ..
  finally show ?thesis
    unfolding x1_def x2_def x3_def y0_def y1_def y2_def y3_def .
qed

lemma uint_byte_of_int: "uint (word_of_int x :: byte) = x mod 256"
  by (simp add: uint_word_of_int take_bit_eq_mod)

lemma unat_byte_of_nat: "unat (of_nat x :: byte) = x mod 256"
  by (simp add: unat_of_nat)

lemma int_round_trip:
  assumes "- 2147483648 \<le> v" "v < 2147483648"
  shows "\<exists>b. pack_int v = Inr b \<and> length b = 4 \<and> unpack_int b = Inr v"
proof -
  define u where "u = v mod 4294967296"
  have u: "(if u < 2147483648 then u else u - 4294967296) = v"
  proof (cases "0 \<le> v")
    case True
    then have "u = v" using assms by (simp add: u_def)
    then show ?thesis using assms by simp
  next
    case False
    then have "(v + 4294967296) mod 4294967296 = v + 4294967296"
      using assms by (intro mod_pos_pos_trivial) simp_all
    then have "u = v + 4294967296" by (simp add: u_def)
    then show ?thesis using False assms by simp
  qed
  have "unpack_int [word_of_int (v div 16777216), word_of_int (v div 65536),
                    word_of_int (v div 256), word_of_int v]
        = Inr (if u < 2147483648 then u else u - 4294967296)"
    by (simp only: unpack_int.simps uint_byte_of_int be32_int Let_def u_def)
  then show ?thesis
    using assms u by (simp add: pack_int_def)
qed

lemma float_round_trip:
  assumes "\<not> float_is_nan w"
  shows "\<exists>b. pack_float w = Inr b \<and> length b = 4 \<and> unpack_float b = Inr w"
proof -
  have "unat w < 4294967296" using unsigned_less [of w] by simp
  then have m: "unat w mod 4294967296 = unat w" by simp
  have "unpack_float [of_nat (unat w div 16777216), of_nat (unat w div 65536),
                      of_nat (unat w div 256), of_nat (unat w)]
        = (let v = of_nat (unat w) in
           if float_is_nan v then Inl (Unmodelled ''unpack of a NaN'') else Inr v)"
    by (simp only: unpack_float.simps unat_byte_of_nat be32_nat m)
  then have "unpack_float [of_nat (unat w div 16777216), of_nat (unat w div 65536),
                      of_nat (unat w div 256), of_nat (unat w)] = Inr w"
    using assms by (simp add: Let_def)
  then show ?thesis
    using assms by (simp add: pack_float_def)
qed

lemma decode_fields_step:
  "decode_fields bs (f # fs) idx res =
     (case parse_type (field_type f) of
        Inl e \<Rightarrow> Inl e
      | Inr t \<Rightarrow>
          (case decode_one t (py_slice bs idx (idx + field_width t)) of
             Inl e \<Rightarrow> Inl e
           | Inr v \<Rightarrow> decode_fields bs fs (idx + field_width t) (res(field_name f \<mapsto> v))))"
  by (simp add: decode_one_def field_width_def add.assoc
      split: sum.splits field_type_desc.splits)

lemma py_slice_mid:
  "py_slice (pre @ part @ rest) (int (length pre)) (int (length pre) + int (length part)) = part"
  using py_slice_nat [of "pre @ part @ rest" "length pre" "length pre + length part"] by simp

lemma value_ok_width: "value_ok t v \<Longrightarrow> width_ok t"
  by (cases t; cases v) (auto simp: width_ok_def split: sum.splits)

lemma encode_field_round_trip:
  assumes "value_ok t v"
  shows "\<exists>part. encode_field t v = Inr part \<and> int (length part) = field_width t \<and>
                decode_one t part = Inr v"
proof (cases t)
  case TInt
  then obtain i where v: "v = VInt i" and i: "- 2147483648 \<le> i" "i < 2147483648"
    using assms by (cases v) auto
  show ?thesis
    using int_round_trip [OF i]
    by (auto simp: TInt v encode_field_def py_int_of_def field_width_def decode_one_def)
next
  case TFloat
  then obtain w where v: "v = VFloat w" and w: "\<not> float_is_nan w"
    using assms by (cases v) auto
  show ?thesis
    using float_round_trip [OF w]
    by (auto simp: TFloat v encode_field_def py_float_of_def field_width_def decode_one_def)
next
  case (TChar n)
  then obtain s b where v: "v = VStr s" and b: "utf8_encode s = Inr b"
    and l: "int (length b) \<le> n" and z: "b = [] \<or> last b \<noteq> 0"
    using assms by (cases v) (auto split: sum.splits)
  have n: "0 \<le> n" using l by simp
  have p: "pack_char s n = Inr (b @ replicate (nat n - length b) 0)"
    using pack_char_eq [OF n b] l by simp
  have "unpack_char (b @ replicate (nat n - length b) 0) = Inr s"
    using z b by (simp add: unpack_char_def rstrip_zero_padded utf8_round_trip)
  moreover have "int (length (b @ replicate (nat n - length b) (0::byte))) = n"
    using l by simp
  ultimately show ?thesis
    using p by (simp add: TChar v encode_field_def py_str_of_def field_width_def decode_one_def)
next
  case (TVarchar n)
  then obtain s b where v: "v = VStr s" and b: "utf8_encode s = Inr b"
    and l: "int (length b) \<le> n" and m: "length b \<le> 255"
    using assms by (cases v) (auto split: sum.splits)
  have n: "0 \<le> n" using l by simp
  have t: "take 255 (take (nat n) b) = b" using l m by simp
  have t': "take (min 255 (nat n)) b = b" using l m by simp
  from pack_varchar_layout [OF n b, THEN conjunct1]
  obtain out where o: "pack_varchar s n = Inr out" "length out = 1 + nat n"
      "unpack_varchar out n = utf8_decode (take 255 (take (nat n) b))"
    by blast
  have "unpack_varchar out n = Inr s"
    using o(3) b by (simp add: t' utf8_round_trip)
  moreover have "int (length out) = 1 + n" using o(2) n by simp
  ultimately show ?thesis
    using o(1) by (simp add: TVarchar v encode_field_def py_str_of_def field_width_def decode_one_def)
qed

lemma encode_default_round_trip:
  assumes "width_ok t"
  shows "\<exists>part. encode_field t (default_value t) = Inr part \<and> int (length part) = field_width t \<and>
                decode_one t part = Inr (decoded_default t)"
proof (cases t)
  case TInt
  then show ?thesis
    using encode_field_round_trip [of TInt "VInt 0"]
    by (simp add: default_value_def decoded_default_def)
next
  case TFloat
  have "\<not> float_is_nan 0" by (simp add: float_is_nan_def)
  from TFloat float_round_trip [OF this] show ?thesis
    by (auto simp: encode_field_def py_float_of_def field_width_def decode_one_def
        default_value_def decoded_default_def)
next
  case (TChar n)
  then show ?thesis
    using encode_field_round_trip [of "TChar n" "VStr []"] assms
    by (simp add: default_value_def decoded_default_def width_ok_def)
next
  case (TVarchar n)
  then show ?thesis
    using encode_field_round_trip [of "TVarchar n" "VStr []"] assms
    by (simp add: default_value_def decoded_default_def width_ok_def)
qed

lemma fields_round_trip:
  assumes "\<forall>f \<in> set fs. field_ok r f"
  shows "\<exists>bs. encode_fields r fs = Inr bs \<and>
              (\<forall>pre post res. decode_fields (pre @ bs @ post) fs (int (length pre)) res
                                = Inr (fill r fs res))"
  using assms
proof (induction fs)
  case Nil
  then show ?case by simp
next
  case (Cons f fs)
  then obtain t where t: "parse_type (field_type f) = Inr t"
    and ok: "case r (field_name f) of Some v \<Rightarrow> value_ok t v | None \<Rightarrow> width_ok t"
    by (auto simp: field_ok_def split: sum.splits)
  define val where "val = (case r (field_name f) of Some v \<Rightarrow> v | None \<Rightarrow> default_value t)"
  have "\<exists>part. encode_field t val = Inr part \<and> int (length part) = field_width t \<and>
               decode_one t part = Inr (expected r f)"
  proof (cases "r (field_name f)")
    case None
    then show ?thesis
      using encode_default_round_trip [of t] ok by (simp add: val_def expected_def t)
  next
    case (Some v)
    then show ?thesis
      using encode_field_round_trip [of t v] ok by (simp add: val_def expected_def t)
  qed
  then obtain part where part: "encode_field t val = Inr part"
    and w: "int (length part) = field_width t" and d: "decode_one t part = Inr (expected r f)"
    by blast
  from Cons obtain parts where parts: "encode_fields r fs = Inr parts"
    and ih: "\<And>pre post res. decode_fields (pre @ parts @ post) fs (int (length pre)) res
                                = Inr (fill r fs res)"
    by auto
  have e: "encode_fields r (f # fs) = Inr (part @ parts)"
    using t part parts by (simp add: val_def)
  have "decode_fields (pre @ (part @ parts) @ post) (f # fs) (int (length pre)) res
        = Inr (fill r (f # fs) res)" for pre post res
  proof -
    define whole where "whole = pre @ (part @ parts) @ post"
    have s: "py_slice whole (int (length pre)) (int (length pre) + field_width t) = part"
      using py_slice_mid [of pre part "parts @ post"] by (simp add: w whole_def)
    have n: "int (length pre) + field_width t = int (length (pre @ part))"
      using w by simp
    have wh: "whole = (pre @ part) @ parts @ post"
      by (simp add: whole_def)
    have "decode_fields whole (f # fs) (int (length pre)) res
          = decode_fields whole fs (int (length pre) + field_width t)
              (res(field_name f \<mapsto> expected r f))"
      by (simp only: decode_fields_step t s d sum.case)
    also have "\<dots> = decode_fields ((pre @ part) @ parts @ post) fs (int (length (pre @ part)))
              (res(field_name f \<mapsto> expected r f))"
      by (simp only: n wh)
    also have "\<dots> = Inr (fill r fs (res(field_name f \<mapsto> expected r f)))"
      by (rule ih)
    finally show ?thesis
      by (simp only: whole_def fill.simps)
  qed
  with e show ?case by blast
qed

lemma fill_notin: "k \<notin> field_name ` set fs \<Longrightarrow> fill r fs res k = res k"
  by (induction fs arbitrary: res) auto

lemma fill_some:
  assumes "k \<in> field_name ` set fs" "r k = Some v" "\<forall>f \<in> set fs. field_ok r f"
  shows "fill r fs res k = Some v"
  using assms
proof (induction fs arbitrary: res)
  case Nil
  then show ?case by simp
next
  case (Cons f fs)
  show ?case
  proof (cases "k \<in> field_name ` set fs")
    case True
    then show ?thesis using Cons by simp
  next
    case False
    then have k: "k = field_name f" using Cons.prems(1) by auto
    have "expected r f = v"
      using Cons.prems k by (auto simp: expected_def field_ok_def split: sum.splits)
    then show ?thesis
      using False k by (simp add: fill_notin)
  qed
qed

lemma fill_none:
  assumes "k \<in> field_name ` set fs" "r k = None" "\<forall>f \<in> set fs. field_ok r f"
  shows "\<exists>f \<in> set fs. \<exists>t. field_name f = k \<and> parse_type (field_type f) = Inr t \<and>
                      fill r fs res k = Some (decoded_default t)"
  using assms
proof (induction fs arbitrary: res)
  case Nil
  then show ?case by simp
next
  case (Cons f fs)
  show ?case
  proof (cases "k \<in> field_name ` set fs")
    case True
    then have "\<exists>g \<in> set fs. \<exists>u. field_name g = k \<and> parse_type (field_type g) = Inr u \<and>
                 fill r fs (res(field_name f \<mapsto> expected r f)) k = Some (decoded_default u)"
      using Cons.prems by (intro Cons.IH) auto
    then show ?thesis by auto
  next
    case False
    then have k: "k = field_name f" using Cons.prems(1) by auto
    obtain t where t: "parse_type (field_type f) = Inr t"
      using Cons.prems(3) by (auto simp: field_ok_def split: sum.splits)
    have "expected r f = decoded_default t"
      using Cons.prems(2) k t by (simp add: expected_def)
    then show ?thesis
      using False k t by (auto simp: fill_notin)
  qed
qed

lemma parse_int_type: "parse_type (str_of ''int'') = Inr TInt"
  by (simp add: parse_type_def str_of_def py_strip_def py_isspace_def startswith_def
      endswith_def Let_def)

lemma parse_float_type: "parse_type (str_of ''float'') = Inr TFloat"
  by (simp add: parse_type_def str_of_def py_strip_def py_isspace_def startswith_def
      endswith_def Let_def)

lemma parse_char20: "parse_type (str_of ''char(20)'') = Inr (TChar 20)"
  by (simp add: parse_type_def str_of_def py_strip_def py_isspace_def startswith_def
      endswith_def Let_def py_slice_def slice_index_def py_int_of_str_def is_digit_def
      c_strip_def is_c_space_def
      digits_value_def)

lemma parse_varchar300: "parse_type (str_of ''varchar(300)'') = Inr (TVarchar 300)"
  by (simp add: parse_type_def str_of_def py_strip_def py_isspace_def startswith_def
      endswith_def Let_def py_slice_def slice_index_def py_int_of_str_def is_digit_def
      c_strip_def is_c_space_def
      digits_value_def)

lemma utf8_encode_ascii: "\<forall>c \<in> set s. c < 128 \<Longrightarrow> utf8_encode s = Inr (map of_nat s)"
  by (induction s) (simp_all add: utf8_encode_cp_def)

lemma utf8_encode_a: "utf8_encode (replicate k 97) = Inr (replicate k 97)"
  using utf8_encode_ascii [of "replicate k 97"] by simp

lemma utf8_decode_a: "utf8_decode (replicate k 97) = Inr (replicate k 97)"
  by (induction k) simp_all

lemma truncation_exact:
  assumes "utf8_encode s = Inr b" "0 \<le> n" "n < int (length b)"
  shows "pack_char s n = Inr (take (nat n) b)"
    and "pack_varchar s n =
           Inr (of_nat (min (nat n) 255) # take (min (nat n) 255) b
                @ replicate (nat n - min (nat n) 255) 0)"
proof -
  have l: "nat n < length b" using assms by simp
  then have "nat n - length b = 0" by simp
  then show "pack_char s n = Inr (take (nat n) b)"
    using pack_char_eq [OF assms(2,1)] by simp
  have m: "min (length b) (min (nat n) 255) = min (nat n) 255" using l by simp
  have t: "take 255 (take (nat n) b) = take (min (nat n) 255) b"
    by (simp add: min.commute)
  show "pack_varchar s n =
           Inr (of_nat (min (nat n) 255) # take (min (nat n) 255) b
                @ replicate (nat n - min (nat n) 255) 0)"
    using pack_varchar_eq [OF assms(2,1)] unfolding m t .
qed

subsection \<open>Round trip of a structured record\<close>

text \<open>
  Claim C1, as amended. Take a table of the schema in which every field has a type that
  \<open>parse_type\<close> accepts, and a record in which every field that is present holds a value
  within its type (\<open>field_ok\<close>, \<open>value_ok\<close>): an int in the signed 32-bit range, a float
  given by its single-precision bit pattern that is not a NaN, for \<open>char(n)\<close> a string
  whose UTF-8 bytes number at most \<open>n\<close> and do not end in a zero byte, for \<open>varchar(n)\<close>
  a string whose UTF-8 bytes number at most \<open>n\<close> and at most 255; a field that is absent
  from the record needs a width \<open>n\<close> that is not negative. Then \<open>encode_record\<close> succeeds
  and \<open>decode_record\<close> of its result succeeds with a mapping that holds, for every field
  of the table, the value of the record or, when the record has none, the default of the
  field (0, 0.0 or the empty string), and nothing else; this mapping is the record
  itself when the fields of the record are exactly the fields of the table. A string
  whose UTF-8 bytes exceed the width \<open>n\<close> is stored cut at exactly \<open>n\<close> bytes by \<open>char(n)\<close>,
  and at exactly \<open>min n 255\<close> bytes by \<open>varchar(n)\<close>.
\<close>

theorem record_round_trip:
  assumes "sch tname = Some table"
    and "\<forall>f \<in> set (table_fields table). field_ok r f"
  shows "(\<exists>bs d. encode_record r tname sch = Inr bs \<and>
            decode_record bs tname sch = Inr d \<and>
            (\<forall>k v. k \<in> field_name ` set (table_fields table) \<and> r k = Some v \<longrightarrow> d k = Some v) \<and>
            (\<forall>k. k \<in> field_name ` set (table_fields table) \<and> r k = None \<longrightarrow>
               (\<exists>f \<in> set (table_fields table). \<exists>t.
                   field_name f = k \<and> parse_type (field_type f) = Inr t \<and>
                   d k = Some (decoded_default t))) \<and>
            (\<forall>k. k \<notin> field_name ` set (table_fields table) \<longrightarrow> d k = None) \<and>
            (dom r = field_name ` set (table_fields table) \<longrightarrow> d = r)) \<and>
         (utf8_encode s = Inr b \<and> 0 \<le> n \<and> n < int (length b) \<longrightarrow>
            pack_char s n = Inr (take (nat n) b) \<and>
            pack_varchar s n =
              Inr (of_nat (min (nat n) 255) # take (min (nat n) 255) b
                   @ replicate (nat n - min (nat n) 255) 0))"
proof -
  define fs where "fs = table_fields table"
  define d where "d = fill r fs (\<lambda>k. None)"
  have ok: "\<forall>f \<in> set fs. field_ok r f" using assms(2) by (simp add: fs_def)
  from fields_round_trip [OF ok] obtain bs where
    e: "encode_fields r fs = Inr bs" and
    dd: "\<And>pre post res. decode_fields (pre @ bs @ post) fs (int (length pre)) res
                          = Inr (fill r fs res)"
    by blast
  have enc: "encode_record r tname sch = Inr bs"
    using assms(1) e by (simp add: encode_record_def fs_def)
  have dec: "decode_record bs tname sch = Inr d"
    using assms(1) dd [of "[]" "[]" "\<lambda>k. None"] by (simp add: decode_record_def fs_def d_def)
  have p1: "d k = Some v" if "k \<in> field_name ` set fs" "r k = Some v" for k v
    unfolding d_def using that ok by (rule fill_some)
  have p2: "\<exists>f \<in> set fs. \<exists>t. field_name f = k \<and> parse_type (field_type f) = Inr t \<and>
                       d k = Some (decoded_default t)"
    if "k \<in> field_name ` set fs" "r k = None" for k
    unfolding d_def using that ok by (rule fill_none)
  have p3: "d k = None" if "k \<notin> field_name ` set fs" for k
    unfolding d_def using that by (simp add: fill_notin)
  have p4: "d = r" if dom: "dom r = field_name ` set fs"
  proof
    fix k
    show "d k = r k"
    proof (cases "k \<in> field_name ` set fs")
      case True
      then obtain v where "r k = Some v" using dom by auto
      then show ?thesis using p1 [OF True] by simp
    next
      case False
      then have "r k = None" using dom by auto
      then show ?thesis using p3 [OF False] by simp
    qed
  qed
  have q1: "\<forall>k v. k \<in> field_name ` set fs \<and> r k = Some v \<longrightarrow> d k = Some v"
    using p1 by simp
  have q2: "\<forall>k. k \<in> field_name ` set fs \<and> r k = None \<longrightarrow>
               (\<exists>f \<in> set fs. \<exists>t.
                   field_name f = k \<and> parse_type (field_type f) = Inr t \<and>
                   d k = Some (decoded_default t))"
    using p2 by simp
  have q3: "\<forall>k. k \<notin> field_name ` set fs \<longrightarrow> d k = None"
    using p3 by simp
  have q4: "dom r = field_name ` set fs \<longrightarrow> d = r"
    using p4 by simp
  have first: "\<exists>bs d. encode_record r tname sch = Inr bs \<and>
            decode_record bs tname sch = Inr d \<and>
            (\<forall>k v. k \<in> field_name ` set fs \<and> r k = Some v \<longrightarrow> d k = Some v) \<and>
            (\<forall>k. k \<in> field_name ` set fs \<and> r k = None \<longrightarrow>
               (\<exists>f \<in> set fs. \<exists>t.
                   field_name f = k \<and> parse_type (field_type f) = Inr t \<and>
                   d k = Some (decoded_default t))) \<and>
            (\<forall>k. k \<notin> field_name ` set fs \<longrightarrow> d k = None) \<and>
            (dom r = field_name ` set fs \<longrightarrow> d = r)"
    by (intro exI [of _ bs] exI [of _ d] conjI enc dec q1 q2 q3 q4)
  have second: "utf8_encode s = Inr b \<and> 0 \<le> n \<and> n < int (length b) \<longrightarrow>
            pack_char s n = Inr (take (nat n) b) \<and>
            pack_varchar s n =
              Inr (of_nat (min (nat n) 255) # take (min (nat n) 255) b
                   @ replicate (nat n - min (nat n) 255) 0)"
    using truncation_exact [of s b n] by simp
  show ?thesis
    using first second unfolding fs_def by (rule conjI)
qed

lemma employee_fields:
  "table_fields employee_table =
     [\<lparr>field_name = str_of ''id'', field_type = str_of ''int''\<rparr>,
      \<lparr>field_name = str_of ''name'', field_type = str_of ''char(20)''\<rparr>,
      \<lparr>field_name = str_of ''salary'', field_type = str_of ''float''\<rparr>]"
  by (simp add: employee_table_def)

lemma employee_names:
  "str_of ''id'' \<noteq> str_of ''name''" "str_of ''id'' \<noteq> str_of ''salary''"
  "str_of ''name'' \<noteq> str_of ''salary''"
  by (simp_all add: str_of_def)

lemma employee_record_ok: "\<forall>f \<in> set (table_fields employee_table). field_ok employee_record f"
  using employee_names
  by (simp add: employee_fields field_ok_def parse_int_type parse_char20 parse_float_type
      employee_record_def utf8_encode_a float_is_nan_def)

lemma alice_record_ok: "\<forall>f \<in> set (table_fields employee_table). field_ok alice_record f"
  using employee_names
  by (simp add: employee_fields field_ok_def parse_int_type parse_char20 parse_float_type
      alice_record_def float_is_nan_def)

lemma employee_record_dom:
  "dom employee_record = field_name ` set (table_fields employee_table)"
  "dom alice_record = field_name ` set (table_fields employee_table)"
  by (auto simp: employee_fields employee_record_def alice_record_def)

theorem record_round_trip_witness:
  "demo_schema (str_of ''Employee'') = Some employee_table \<and>
   list_all (field_ok employee_record) (table_fields employee_table) \<and>
   list_all (field_ok alice_record) (table_fields employee_table) \<and>
   (\<exists>bs. encode_record employee_record (str_of ''Employee'') demo_schema = Inr bs \<and>
         decode_record bs (str_of ''Employee'') demo_schema = Inr employee_record) \<and>
   (\<exists>bs. encode_record alice_record (str_of ''Employee'') demo_schema = Inr bs \<and>
         decode_record bs (str_of ''Employee'') demo_schema = Inr alice_record)"
proof -
  have s: "demo_schema (str_of ''Employee'') = Some employee_table"
    by (simp add: demo_schema_def)
  from record_round_trip [of demo_schema "str_of ''Employee''" employee_table employee_record,
      OF s employee_record_ok, THEN conjunct1]
  have a: "\<exists>bs. encode_record employee_record (str_of ''Employee'') demo_schema = Inr bs \<and>
         decode_record bs (str_of ''Employee'') demo_schema = Inr employee_record"
    using employee_record_dom(1) by blast
  from record_round_trip [of demo_schema "str_of ''Employee''" employee_table alice_record,
      OF s alice_record_ok, THEN conjunct1]
  have b: "\<exists>bs. encode_record alice_record (str_of ''Employee'') demo_schema = Inr bs \<and>
         decode_record bs (str_of ''Employee'') demo_schema = Inr alice_record"
    using employee_record_dom(2) by blast
  show ?thesis
    using s employee_record_ok alice_record_ok a b by (simp add: list_all_iff)
qed

text \<open>
  The claim as stated fails for a \<open>varchar(300)\<close> field and a string of 256 letters
  \<open>a\<close>: its 256 UTF-8 bytes are within the declared width and end in no zero byte, yet
  the second cut of \<open>pack_varchar\<close> stores only 255 of them, and the decoded string is one
  letter short.
\<close>

theorem record_round_trip_counterexample:
  "utf8_encode (replicate 256 97) = Inr (replicate 256 97) \<and>
   wide_record (str_of ''v'') = Some (VStr (replicate 256 97)) \<and>
   encode_record wide_record (str_of ''T'') wide_schema
     = Inr (255 # replicate 255 97 @ replicate 45 0) \<and>
   decode_record (255 # replicate 255 97 @ replicate 45 0) (str_of ''T'') wide_schema
     = Inr ((\<lambda>k. None)(str_of ''v'' \<mapsto> VStr (replicate 255 97)))"
proof -
  have s: "wide_schema (str_of ''T'') = Some wide_table"
    by (simp add: wide_schema_def)
  have f: "table_fields wide_table
           = [\<lparr>field_name = str_of ''v'', field_type = str_of ''varchar(300)''\<rparr>]"
    by (simp add: wide_table_def)
  have r: "wide_record (str_of ''v'') = Some (VStr (replicate 256 97))"
    by (simp add: wide_record_def)
  have p: "pack_varchar (replicate 256 97) 300 = Inr (255 # replicate 255 97 @ replicate 45 0)"
    using pack_varchar_eq [of 300 "replicate 256 97" "replicate 256 97"]
    by (simp add: utf8_encode_a)
  have e: "encode_record wide_record (str_of ''T'') wide_schema
           = Inr (255 # replicate 255 97 @ replicate 45 0)"
    by (simp add: encode_record_def s f parse_varchar300 r encode_field_def py_str_of_def p)
  have sl: "py_slice (255 # replicate 255 97 @ replicate 45 (0::byte)) 0 301
            = 255 # replicate 255 97 @ replicate 45 0"
    using py_slice_prefix [of 301 "255 # replicate 255 97 @ replicate 45 (0::byte)"] by simp
  have u: "unpack_varchar (255 # replicate 255 97 @ replicate 45 0) 300 = Inr (replicate 255 97)"
    using unpack_varchar_eq [of "255 # replicate 255 97 @ replicate 45 0" 300]
    by (simp add: utf8_decode_a)
  have d: "decode_record (255 # replicate 255 97 @ replicate 45 0) (str_of ''T'') wide_schema
           = Inr ((\<lambda>k. None)(str_of ''v'' \<mapsto> VStr (replicate 255 97)))"
    by (simp add: decode_record_def s f parse_varchar300 sl u)
  show ?thesis
    using utf8_encode_a [of 256] r e d by (intro conjI)
qed

end
